theory Spec2Isabelle
  imports Complex_Main
begin

section \<open>Sentiment LSTM training script: data preparation, length masking, batching, checkpointing\<close>

text \<open>
  The development embeds the parts of \<^verbatim>\<open>LSTM_Model.py\<close> that the script itself
  programs: vocabulary extraction, encoding of sentences as padded id rows, the
  pretrained lookup table, the sequence lengths computed in \<^verbatim>\<open>SentimentLSTM.forward\<close>,
  the mini-batch index slices, the best-checkpoint rule of the epoch loop and the
  no-information rate. The tokenizer, the recurrent network, the optimizer and the
  metrics library are external; where a function of the script calls them they appear
  as parameters.
\<close>

subsection \<open>Exceptions and dictionaries\<close>

text \<open>The exceptions the modelled code can raise; a call returns \<open>Inl e\<close> when it raises.\<close>

datatype error =
    KeyError string
  | IndexError
  | ValueError
  | RuntimeError
  | ZeroDivisionError

text \<open>
  A Python \<^verbatim>\<open>dict\<close> from tokens to ids is an association list in insertion order.
  \<^verbatim>\<open>d[k]\<close> raises \<^verbatim>\<open>KeyError\<close> on a missing key.
\<close>

type_synonym vocab = "(string \<times> nat) list"

definition dict_getitem :: "vocab \<Rightarrow> string \<Rightarrow> error + nat" where
  "dict_getitem vocab_dict token =
     (case map_of vocab_dict token of
        None \<Rightarrow> Inl (KeyError token)
      | Some i \<Rightarrow> Inr i)"

text \<open>\<^verbatim>\<open>nltk.word_tokenize\<close> is external: any function from a sentence to its tokens.\<close>

type_synonym tokenizer = "string \<Rightarrow> string list"

subsection \<open>\<^verbatim>\<open>extract_vocab_dict_and_msl\<close>\<close>

text \<open>
  The loop of lines 72--76: \<^verbatim>\<open>tokens\<close> accumulates every token, \<^verbatim>\<open>ms_len\<close> the
  largest token count met so far.
\<close>

fun msl_loop :: "tokenizer \<Rightarrow> string list \<Rightarrow> string list \<times> nat \<Rightarrow> string list \<times> nat" where
  "msl_loop word_tokenize [] (tokens, ms_len) = (tokens, ms_len)"
| "msl_loop word_tokenize (sentence # rest) (tokens, ms_len) =
     (let tokens_in_sentence = word_tokenize sentence;
          ms_len' = (if ms_len < length tokens_in_sentence
                     then length tokens_in_sentence else ms_len)
      in msl_loop word_tokenize rest (tokens @ tokens_in_sentence, ms_len'))"

text \<open>
  Line 77 zips \<^verbatim>\<open>set(tokens)\<close> with \<^verbatim>\<open>range(1, len(set(tokens))+1)\<close>. The order
  in which a Python set is iterated is not specified, so it is the parameter
  \<open>set_iter\<close>; \<^verbatim>\<open>len(set(tokens))\<close> is the number of distinct tokens.
\<close>

definition extract_vocab_dict_and_msl ::
  "(string list \<Rightarrow> string list) \<Rightarrow> tokenizer \<Rightarrow>
   string list \<Rightarrow> string list \<Rightarrow> string list \<Rightarrow> vocab \<times> nat" where
  "extract_vocab_dict_and_msl set_iter word_tokenize sentences_train sentences_dev sentences_val =
     (let (tokens, ms_len) =
            msl_loop word_tokenize (sentences_train @ sentences_dev @ sentences_val) ([], 0);
          token_vocab = zip (set_iter tokens) [1 ..< length (remdups tokens) + 1]
      in (token_vocab, ms_len))"

text \<open>What an iteration over a Python set guarantees: every element once, in some order.\<close>

definition set_iteration :: "(string list \<Rightarrow> string list) \<Rightarrow> bool" where
  "set_iteration set_iter \<longleftrightarrow> (\<forall>xs. distinct (set_iter xs) \<and> set (set_iter xs) = set xs)"

subsection \<open>\<^verbatim>\<open>convert_to_ids\<close>\<close>

text \<open>
  A NumPy array of two dimensions: its element type tag, its shape and its rows.
  \<^verbatim>\<open>np.empty(shape)\<close> has the default element type \<^verbatim>\<open>float64\<close> and unspecified
  contents, given here by \<open>garbage\<close>. Element values are rationals; a token id stored in
  a \<^verbatim>\<open>float64\<close> cell is the rational of the same value (exact below \<open>2^53\<close>).
\<close>

datatype dtype = Float64 | Int64

record ndarray =
  nd_dtype :: dtype
  nd_shape :: "nat \<times> nat"
  nd_rows :: "rat list list"

definition np_empty :: "(nat \<Rightarrow> nat \<Rightarrow> rat) \<Rightarrow> nat \<times> nat \<Rightarrow> ndarray" where
  "np_empty garbage shp =
     \<lparr>nd_dtype = Float64, nd_shape = shp,
      nd_rows = map (\<lambda>i. map (garbage i) [0 ..< snd shp]) [0 ..< fst shp]\<rparr>"

text \<open>
  \<^verbatim>\<open>x[idx] = values\<close> for a list of integers: the list is cast to the array's element
  type and must have the row's length, or length one (broadcast); the array keeps its
  element type.
\<close>

definition nd_setitem :: "ndarray \<Rightarrow> nat \<Rightarrow> nat list \<Rightarrow> error + ndarray" where
  "nd_setitem x idx vals =
     (if fst (nd_shape x) \<le> idx then Inl IndexError
      else if length vals = snd (nd_shape x)
        then Inr (x\<lparr>nd_rows := (nd_rows x)[idx := map of_nat vals]\<rparr>)
      else if length vals = 1
        then Inr (x\<lparr>nd_rows := (nd_rows x)[idx := replicate (snd (nd_shape x)) (of_nat (hd vals))]\<rparr>)
      else Inl ValueError)"

text \<open>
  Lines 84--89: the ids of one sentence's tokens. The handler of the bare
  \<^verbatim>\<open>except\<close> performs the lookup of the \<^verbatim>\<open>try\<close> body again, so a second failure
  leaves the function.
\<close>

fun word_ids_loop :: "vocab \<Rightarrow> string list \<Rightarrow> nat list \<Rightarrow> error + nat list" where
  "word_ids_loop vocab_dict [] word_ids = Inr word_ids"
| "word_ids_loop vocab_dict (token # rest) word_ids =
     (case dict_getitem vocab_dict token of
        Inr i \<Rightarrow> word_ids_loop vocab_dict rest (word_ids @ [i])
      | Inl _ \<Rightarrow>
          (case dict_getitem vocab_dict token of
             Inr i \<Rightarrow> word_ids_loop vocab_dict rest (word_ids @ [i])
           | Inl e \<Rightarrow> Inl e))"

text \<open>Line 90: the test that selects the truncating branch.\<close>

definition truncates :: "nat \<Rightarrow> nat list \<Rightarrow> bool" where
  "truncates pad_to word_ids \<longleftrightarrow> pad_to < length word_ids"

text \<open>Lines 90--93: the row written for a sentence.\<close>

definition padded_row :: "nat \<Rightarrow> nat list \<Rightarrow> nat list" where
  "padded_row pad_to word_ids =
     (if truncates pad_to word_ids then take pad_to word_ids
      else word_ids @ replicate (pad_to - length word_ids) 0)"

fun convert_loop ::
  "tokenizer \<Rightarrow> vocab \<Rightarrow> nat \<Rightarrow> (nat \<times> string) list \<Rightarrow> ndarray \<Rightarrow> error + ndarray" where
  "convert_loop word_tokenize vocab_dict pad_to [] x = Inr x"
| "convert_loop word_tokenize vocab_dict pad_to ((idx, sentence) # rest) x =
     (case word_ids_loop vocab_dict (word_tokenize sentence) [] of
        Inl e \<Rightarrow> Inl e
      | Inr word_ids \<Rightarrow>
          (case nd_setitem x idx (padded_row pad_to word_ids) of
             Inl e \<Rightarrow> Inl e
           | Inr x' \<Rightarrow> convert_loop word_tokenize vocab_dict pad_to rest x'))"

definition convert_to_ids ::
  "(nat \<Rightarrow> nat \<Rightarrow> rat) \<Rightarrow> tokenizer \<Rightarrow> string list \<Rightarrow> vocab \<Rightarrow> nat \<Rightarrow> error + ndarray" where
  "convert_to_ids garbage word_tokenize raw_sentences vocab_dict pad_to =
     convert_loop word_tokenize vocab_dict pad_to (enumerate 0 raw_sentences)
       (np_empty garbage (length raw_sentences, pad_to))"

text \<open>
  The id sequence of a token list under a vocabulary that contains every token of it.
\<close>

definition ids_of :: "vocab \<Rightarrow> string list \<Rightarrow> nat list" where
  "ids_of vocab_dict tokens = map (\<lambda>token. the (map_of vocab_dict token)) tokens"

subsection \<open>Sequence length setting\<close>

text \<open>
  \<^verbatim>\<open>args.seq_len\<close> holds either the string \<^verbatim>\<open>"get_max_from_data"\<close> or a number.
  Lines 163--164 replace the string by the maximum returned by
  \<^verbatim>\<open>extract_vocab_dict_and_msl\<close>.
\<close>

datatype seq_len_setting = Get_max_from_data | Seq_len nat

definition resolve_seq_len :: "seq_len_setting \<Rightarrow> nat \<Rightarrow> nat" where
  "resolve_seq_len setting msl =
     (case setting of Get_max_from_data \<Rightarrow> msl | Seq_len n \<Rightarrow> n)"

subsection \<open>Hyper parameters\<close>

text \<open>
  The fields of \<^verbatim>\<open>Args\<close> that the modelled lines read, with \<^verbatim>\<open>seq_len\<close> holding
  the number it has after lines 163--164. The learning rate, the layer sizes and the
  dropout rates reach the network library only.
\<close>

record args =
  seq_len :: nat
  use_packed_sequence :: bool
  embedding_dim :: nat
  n_epochs :: nat
  batch_size :: nat

subsection \<open>\<^verbatim>\<open>get_glove_table\<close>\<close>

text \<open>
  A two-dimensional torch tensor is the list of its rows. \<^verbatim>\<open>torch.empty((r, c))\<close>
  has unspecified contents, given by \<open>garbage\<close>.
\<close>

definition torch_empty :: "(nat \<Rightarrow> nat \<Rightarrow> 'a) \<Rightarrow> nat \<Rightarrow> nat \<Rightarrow> 'a list list" where
  "torch_empty garbage r c = map (\<lambda>i. map (garbage i) [0 ..< c]) [0 ..< r]"

text \<open>
  \<^verbatim>\<open>lookup_table[token_id] = v\<close>: the index must be a row of the table; \<open>v\<close>, with
  leading dimensions of size one dropped, must have the row's length or length one
  (broadcast).
\<close>

definition setitem_row :: "'a list list \<Rightarrow> nat \<Rightarrow> 'a list \<Rightarrow> error + 'a list list" where
  "setitem_row lookup_table token_id v =
     (if length lookup_table \<le> token_id then Inl IndexError
      else if length v = length (lookup_table ! token_id)
        then Inr (lookup_table[token_id := v])
      else if length v = 1
        then Inr (lookup_table[token_id := replicate (length (lookup_table ! token_id)) (hd v)])
      else Inl RuntimeError)"

text \<open>Lines 108--112, over the sorted ids; \<open>glove_dict\<close> maps an id to its pretrained vector.\<close>

fun glove_loop ::
  "(nat \<rightharpoonup> 'a::{zero,one} list) \<Rightarrow> nat list \<Rightarrow> 'a list list \<Rightarrow> error + 'a list list" where
  "glove_loop glove_dict [] lookup_table = Inr lookup_table"
| "glove_loop glove_dict (token_id # rest) lookup_table =
     (case (case glove_dict token_id of
              Some v \<Rightarrow> setitem_row lookup_table token_id v
            | None \<Rightarrow> setitem_row lookup_table token_id (replicate 50 1)) of
        Inl e \<Rightarrow> Inl e
      | Inr lookup_table' \<Rightarrow> glove_loop glove_dict rest lookup_table')"

definition get_glove_table ::
  "(nat \<Rightarrow> nat \<Rightarrow> 'a) \<Rightarrow> vocab \<Rightarrow> (nat \<rightharpoonup> 'a::{zero,one} list) \<Rightarrow> error + 'a list list" where
  "get_glove_table garbage vocab_dict glove_dict =
     (case glove_loop glove_dict (sort (map snd vocab_dict))
             (torch_empty garbage (length vocab_dict + 2) 50) of
        Inl e \<Rightarrow> Inl e
      | Inr lookup_table \<Rightarrow> setitem_row lookup_table 0 (replicate 50 0))"

text \<open>
  Line 120: the shape of the weight of \<^verbatim>\<open>nn.Embedding(vocab_size + 2, args.embedding_dim)\<close>;
  line 179 passes \<^verbatim>\<open>len(token_ids)\<close> as \<^verbatim>\<open>vocab_size\<close> and line 181 copies the whole
  lookup table into the weight.
\<close>

definition embedding_weight_shape :: "args \<Rightarrow> nat \<Rightarrow> nat \<times> nat" where
  "embedding_weight_shape a vocab_size = (vocab_size + 2, embedding_dim a)"

subsection \<open>Sequence lengths in \<^verbatim>\<open>SentimentLSTM.forward\<close>\<close>

text \<open>
  Tensors of two and three dimensions with an explicit shape and an element function.
  Of the element type only the comparison with zero is used.
\<close>

record 'a tensor2 =
  shape2 :: "nat \<times> nat"
  el2 :: "nat \<Rightarrow> nat \<Rightarrow> 'a"

record 'a tensor3 =
  shape3 :: "nat \<times> nat \<times> nat"
  el3 :: "nat \<Rightarrow> nat \<Rightarrow> nat \<Rightarrow> 'a"

text \<open>\<^verbatim>\<open>self.embedding(x)\<close>: every id of \<open>x\<close> selects a row of the weight.\<close>

definition embedding :: "'a tensor2 \<Rightarrow> nat tensor2 \<Rightarrow> error + 'a tensor3" where
  "embedding weight x =
     (if list_ex (\<lambda>b. list_ex (\<lambda>t. fst (shape2 weight) \<le> el2 x b t) [0 ..< snd (shape2 x)])
           [0 ..< fst (shape2 x)]
      then Inl IndexError
      else Inr \<lparr>shape3 = (fst (shape2 x), snd (shape2 x), snd (shape2 weight)),
                el3 = (\<lambda>b t k. el2 weight (el2 x b t) k)\<rparr>)"

text \<open>\<^verbatim>\<open>.permute(1, 0, 2)\<close>\<close>

definition permute_1_0_2 :: "'a tensor3 \<Rightarrow> 'a tensor3" where
  "permute_1_0_2 x =
     \<lparr>shape3 = (fst (snd (shape3 x)), fst (shape3 x), snd (snd (shape3 x))),
      el3 = (\<lambda>i j k. el3 x j i k)\<rparr>"

text \<open>\<^verbatim>\<open>x[:, sentence_idx, :]\<close>\<close>

definition select_sentence :: "'a tensor3 \<Rightarrow> nat \<Rightarrow> 'a tensor2" where
  "select_sentence x sentence_idx =
     \<lparr>shape2 = (fst (shape3 x), snd (snd (shape3 x))),
      el2 = (\<lambda>i k. el3 x i sentence_idx k)\<rparr>"

text \<open>\<^verbatim>\<open>torch.sum(t == 0)\<close>: the number of elements equal to zero.\<close>

definition count_zero :: "'a::zero tensor2 \<Rightarrow> nat" where
  "count_zero t =
     sum_list (map (\<lambda>i. length (filter (\<lambda>k. el2 t i k = 0) [0 ..< snd (shape2 t)]))
                   [0 ..< fst (shape2 t)])"

text \<open>
  Lines 131--136: the list \<^verbatim>\<open>lenghts\<close> that line 138 passes to
  \<^verbatim>\<open>pack_padded_sequence\<close>, or \<open>None\<close> when packing is switched off. The division
  by \<open>50\<close> is a true division and the difference is a float; both are exact in the
  rationals.
\<close>

definition forward_lenghts ::
  "args \<Rightarrow> 'a::zero tensor2 \<Rightarrow> nat tensor2 \<Rightarrow> error + rat list option" where
  "forward_lenghts a weight x0 =
     (case embedding weight x0 of
        Inl e \<Rightarrow> Inl e
      | Inr emb \<Rightarrow>
          (let x = permute_1_0_2 emb in
           if use_packed_sequence a
           then Inr (Some (map (\<lambda>sentence_idx.
                    let n_zeros = of_nat (count_zero (select_sentence x sentence_idx)) / 50
                    in of_nat (seq_len a) - n_zeros)
                  [0 ..< fst (snd (shape3 x))]))
           else Inr None))"

text \<open>
  The length the specification describes: \<^verbatim>\<open>seq_len\<close> minus the number of embedding
  rows of the sentence that are entirely zero.
\<close>

definition count_zero_rows :: "'a::zero tensor2 \<Rightarrow> nat" where
  "count_zero_rows t =
     length (filter (\<lambda>i. list_all (\<lambda>k. el2 t i k = 0) [0 ..< snd (shape2 t)])
                    [0 ..< fst (shape2 t)])"

definition specified_lengths ::
  "args \<Rightarrow> 'a::zero tensor2 \<Rightarrow> nat tensor2 \<Rightarrow> error + rat list option" where
  "specified_lengths a weight x0 =
     (case embedding weight x0 of
        Inl e \<Rightarrow> Inl e
      | Inr emb \<Rightarrow>
          (let x = permute_1_0_2 emb in
           if use_packed_sequence a
           then Inr (Some (map (\<lambda>sentence_idx.
                    of_nat (seq_len a) - of_nat (count_zero_rows (select_sentence x sentence_idx)))
                  [0 ..< fst (snd (shape3 x))]))
           else Inr None))"

subsection \<open>No-information rate\<close>

text \<open>
  \<^verbatim>\<open>torch.unique(y, return_counts=True)\<close>: the sorted distinct labels and how often
  each occurs. \<^verbatim>\<open>.max()\<close> raises on an empty tensor.
\<close>

definition torch_unique_counts :: "int list \<Rightarrow> int list \<times> nat list" where
  "torch_unique_counts y =
     (let labels = sort (remdups y) in (labels, map (count_list y) labels))"

definition tensor_max :: "nat list \<Rightarrow> error + nat" where
  "tensor_max counts = (case counts of [] \<Rightarrow> Inl RuntimeError | c # cs \<Rightarrow> Inr (fold max cs c))"

text \<open>Lines 186--187; the quotient is a float, exact in the rationals.\<close>

definition no_information_rate :: "int list \<Rightarrow> error + rat" where
  "no_information_rate y_dev =
     (let labels_ditrib = torch_unique_counts y_dev in
      case tensor_max (snd labels_ditrib) of
        Inl e \<Rightarrow> Inl e
      | Inr m \<Rightarrow>
          if length y_dev = 0 then Inl ZeroDivisionError
          else Inr (100 * of_nat m / of_nat (length y_dev)))"

subsection \<open>Best checkpoint\<close>

text \<open>
  Training and evaluation are done by the network library, so an epoch is given by its
  outcome: the model parameters after the epoch's training pass and the validation
  accuracy measured for them. The state of the epoch loop is \<^verbatim>\<open>acc_dev_best\<close>, the
  contents of the checkpoint file, and the epochs at which the file was written (each is
  reported by the message of line 220). Accuracies are compared only, so any linear
  order with a zero serves.
\<close>

record ('m, 'a) loop_state =
  acc_dev_best :: 'a
  checkpoint :: "'m option"
  saved_at :: "nat list"

text \<open>Lines 217--220.\<close>

definition checkpoint_step ::
  "bool \<Rightarrow> nat \<Rightarrow> 'm \<times> 'a \<Rightarrow> ('m, 'a::{zero,linorder}) loop_state \<Rightarrow> ('m, 'a) loop_state" where
  "checkpoint_step SAVE_MODEL epoch outcome st =
     (let model = fst outcome; acc_val = snd outcome in
      if acc_val > acc_dev_best st \<and> SAVE_MODEL
      then st\<lparr>acc_dev_best := acc_val, checkpoint := Some model, saved_at := saved_at st @ [epoch]\<rparr>
      else st)"

fun epoch_loop ::
  "bool \<Rightarrow> (nat \<times> 'm \<times> 'a) list \<Rightarrow> ('m, 'a::{zero,linorder}) loop_state \<Rightarrow> ('m, 'a) loop_state" where
  "epoch_loop SAVE_MODEL [] st = st"
| "epoch_loop SAVE_MODEL ((epoch, outcome) # rest) st =
     epoch_loop SAVE_MODEL rest (checkpoint_step SAVE_MODEL epoch outcome st)"

text \<open>
  Lines 189--220 for \<^verbatim>\<open>n_epochs = len(outcomes)\<close>; \<open>file\<close> is what the checkpoint file
  holds when the run starts.
\<close>

definition training_loop ::
  "bool \<Rightarrow> ('m \<times> 'a) list \<Rightarrow> 'm option \<Rightarrow> ('m, 'a::{zero,linorder}) loop_state" where
  "training_loop SAVE_MODEL outcomes file =
     epoch_loop SAVE_MODEL (enumerate 0 outcomes)
       \<lparr>acc_dev_best = 0, checkpoint = file, saved_at = []\<rparr>"

subsection \<open>The network call and the mini-batch loops\<close>

text \<open>
  The model object: the weight of \<^verbatim>\<open>self.embedding\<close>, the remaining parameters together
  with the optimizer's state, and the flag \<^verbatim>\<open>training\<close> that \<^verbatim>\<open>model.train()\<close> sets and
  \<^verbatim>\<open>model.eval()\<close> clears.
\<close>

record ('a, 'p) network =
  embedding_weight :: "'a tensor2"
  other_params :: 'p
  training :: bool

text \<open>
  The arithmetic of the network library is external and given by three functions, each
  of which may raise: \<open>lstm_to_mean\<close> stands for \<^verbatim>\<open>self.lstm\<close>,
  \<^verbatim>\<open>pad_packed_sequence\<close>, the reshaping and \<^verbatim>\<open>self.mean\<close> (lines 139--145),
  \<open>norm_drop_out\<close> for the arithmetic of \<^verbatim>\<open>self.bn_mean\<close>, \<^verbatim>\<open>self.drop\<close> and
  \<^verbatim>\<open>self.out\<close> (lines 145--146), and \<open>loss_backward_step\<close> for the loss, the
  backward pass and the optimizer step (lines 201--204), which returns the updated
  parameters and the loss.
\<close>

record ('a, 'p, 'h, 'l) library =
  lstm_to_mean :: "'p \<Rightarrow> bool \<Rightarrow> 'a tensor3 \<Rightarrow> int list option \<Rightarrow> error + 'h"
  norm_drop_out :: "'p \<Rightarrow> bool \<Rightarrow> 'h \<Rightarrow> error + 'l"
  loss_backward_step ::
    "('a, 'p) network \<Rightarrow> 'l \<Rightarrow> int list \<Rightarrow> error + ('a tensor2 \<times> 'p) \<times> rat"

text \<open>
  \<^verbatim>\<open>pack_padded_sequence\<close> turns the list of lengths into a tensor of 64-bit integers,
  which cuts off the fraction of a float.
\<close>

definition to_int64 :: "rat \<Rightarrow> int" where
  "to_int64 q = (if 0 \<le> q then \<lfloor>q\<rfloor> else \<lceil>q\<rceil>)"

text \<open>
  The checks of \<^verbatim>\<open>pack_padded_sequence(x, lenghts, enforce_sorted=False)\<close>: it refuses
  an input without elements (``Cannot pack empty tensors''), a list that has not one
  length per sentence, and a length that is not greater than zero. It returns the
  lengths it packs.
\<close>

definition pack_padded_sequence :: "'a tensor3 \<Rightarrow> rat list \<Rightarrow> error + int list" where
  "pack_padded_sequence x lenghts =
     (if fst (shape3 x) * fst (snd (shape3 x)) * snd (snd (shape3 x)) = 0 then Inl RuntimeError
      else if length lenghts \<noteq> fst (snd (shape3 x)) then Inl RuntimeError
      else if list_ex (\<lambda>l. to_int64 l \<le> 0) lenghts then Inl RuntimeError
      else Inr (map to_int64 lenghts))"

text \<open>
  Lines 139--146 for a batch of \<open>n\<close> sentences. \<^verbatim>\<open>BatchNorm1d\<close> in training mode
  refuses a batch of one row (``Expected more than 1 value per channel when training'').
\<close>

definition network_tail ::
  "('a, 'p, 'h, 'l) library \<Rightarrow> ('a, 'p) network \<Rightarrow> nat \<Rightarrow> 'a tensor3 \<Rightarrow> int list option
     \<Rightarrow> error + 'l" where
  "network_tail lib m n x packed =
     (case lstm_to_mean lib (other_params m) (training m) x packed of
        Inl e \<Rightarrow> Inl e
      | Inr mean \<Rightarrow>
          if training m \<and> n = 1 then Inl ValueError
          else norm_drop_out lib (other_params m) (training m) mean)"

text \<open>\<^verbatim>\<open>SentimentLSTM.forward\<close>, lines 129--146.\<close>

definition forward ::
  "('a::zero, 'p, 'h, 'l) library \<Rightarrow> args \<Rightarrow> ('a, 'p) network \<Rightarrow> nat tensor2 \<Rightarrow> error + 'l" where
  "forward lib a m x0 =
     (case embedding (embedding_weight m) x0 of
        Inl e \<Rightarrow> Inl e
      | Inr emb \<Rightarrow>
          (let x = permute_1_0_2 emb in
           case forward_lenghts a (embedding_weight m) x0 of
             Inl e \<Rightarrow> Inl e
           | Inr None \<Rightarrow> network_tail lib m (fst (shape2 x0)) x None
           | Inr (Some lenghts) \<Rightarrow>
               (case pack_padded_sequence x lenghts of
                  Inl e \<Rightarrow> Inl e
                | Inr packed \<Rightarrow> network_tail lib m (fst (shape2 x0)) x (Some packed))))"

text \<open>\<^verbatim>\<open>xs[lo:hi]\<close> for \<open>0 \<le> lo \<le> hi\<close>: a slice stops at the end of the sequence.\<close>

definition py_slice :: "'a list \<Rightarrow> nat \<Rightarrow> nat \<Rightarrow> 'a list" where
  "py_slice xs lo hi = take (hi - lo) (drop lo xs)"

text \<open>The same slice of the rows of a tensor, \<^verbatim>\<open>x[lo:hi]\<close>.\<close>

definition slice_rows :: "'a tensor2 \<Rightarrow> nat \<Rightarrow> nat \<Rightarrow> 'a tensor2" where
  "slice_rows x lo hi =
     \<lparr>shape2 = (min hi (fst (shape2 x)) - lo, snd (shape2 x)),
      el2 = (\<lambda>i t. el2 x (lo + i) t)\<rparr>"

text \<open>
  The state of the training pass of an epoch: the model, \<^verbatim>\<open>loss_train\<close>,
  \<^verbatim>\<open>train_steps\<close>, and, to speak about the pass, the index ranges \<open>(lo, hi)\<close> of the slices
  for which the optimizer step has been taken (examples \<open>lo, \<dots>, hi - 1\<close>).
\<close>

record ('a, 'p) train_state =
  model :: "('a, 'p) network"
  loss_train :: rat
  train_steps :: nat
  processed :: "(nat \<times> nat) list"

text \<open>
  Lines 197--207 over the batch numbers still to do. An exception of the network call or
  of the update ends the loop; it is returned with the state reached.
\<close>

fun train_loop ::
  "('a::zero, 'p, 'h, 'l) library \<Rightarrow> args \<Rightarrow> nat tensor2 \<Rightarrow> int list \<Rightarrow> nat list
     \<Rightarrow> ('a, 'p) train_state \<Rightarrow> error option \<times> ('a, 'p) train_state" where
  "train_loop lib a x_train y_train [] st = (None, st)"
| "train_loop lib a x_train y_train (batch # rest) st =
     (let inds = (batch * batch_size a, (batch + 1) * batch_size a) in
      case forward lib a (model st) (slice_rows x_train (fst inds) (snd inds)) of
        Inl e \<Rightarrow> (Some e, st)
      | Inr logits \<Rightarrow>
          (case loss_backward_step lib (model st) logits (py_slice y_train (fst inds) (snd inds)) of
             Inl e \<Rightarrow> (Some e, st)
           | Inr ((w, p), loss) \<Rightarrow>
               train_loop lib a x_train y_train rest
                 \<lparr>model = (model st)\<lparr>embedding_weight := w, other_params := p\<rparr>,
                  loss_train = loss_train st + loss, train_steps = train_steps st + 1,
                  processed = processed st @ [(fst inds, min (snd inds) (fst (shape2 x_train)))]\<rparr>))"

text \<open>
  Lines 193--207: the training pass of one epoch. \<^verbatim>\<open>model.train()\<close> comes before the
  integer division of line 195, which raises on a zero batch size.
\<close>

definition train_pass ::
  "('a::zero, 'p, 'h, 'l) library \<Rightarrow> args \<Rightarrow> ('a, 'p) network \<Rightarrow> nat tensor2 \<Rightarrow> int list
     \<Rightarrow> error option \<times> ('a, 'p) train_state" where
  "train_pass lib a m x_train y_train =
     (let st = \<lparr>model = m\<lparr>training := True\<rparr>, loss_train = 0, train_steps = 0, processed = []\<rparr> in
      if batch_size a = 0 then (Some ZeroDivisionError, st)
      else train_loop lib a x_train y_train [0 ..< fst (shape2 x_train) div batch_size a + 1] st)"

text \<open>
  Lines 60--62 of \<^verbatim>\<open>acc\<close>: the outputs of the network for the slices, in the order of
  the loop, with the index ranges of the slices it has returned for.
\<close>

fun acc_loop ::
  "('a::zero, 'p, 'h, 'l) library \<Rightarrow> args \<Rightarrow> ('a, 'p) network \<Rightarrow> nat tensor2 \<Rightarrow> nat list
     \<Rightarrow> 'l list \<times> (nat \<times> nat) list \<Rightarrow> error option \<times> 'l list \<times> (nat \<times> nat) list" where
  "acc_loop lib a m x [] (logits, called) = (None, logits, called)"
| "acc_loop lib a m x (batch # rest) (logits, called) =
     (let inds = (batch * batch_size a, (batch + 1) * batch_size a) in
      case forward lib a m (slice_rows x (fst inds) (snd inds)) of
        Inl e \<Rightarrow> (Some e, logits, called)
      | Inr out \<Rightarrow>
          acc_loop lib a m x rest
            (logits @ [out], called @ [(fst inds, min (snd inds) (fst (shape2 x)))]))"

definition acc_pass ::
  "('a::zero, 'p, 'h, 'l) library \<Rightarrow> args \<Rightarrow> ('a, 'p) network \<Rightarrow> nat tensor2
     \<Rightarrow> error option \<times> 'l list \<times> (nat \<times> nat) list" where
  "acc_pass lib a m x =
     (if batch_size a = 0 then (Some ZeroDivisionError, [], [])
      else acc_loop lib a m x [0 ..< fst (shape2 x) div batch_size a + 1] ([], []))"

subsection \<open>Concrete inputs\<close>

text \<open>
  For the concrete instances: a tokenizer that splits at blanks, the insertion-order
  iteration of a set, an allocation whose cells all hold \<open>7\<close>, hyper parameters,
  pretrained vectors for id \<open>1\<close> only, four epochs, an embedding weight whose row \<open>1\<close>
  is zero in half of its entries, two batches of one sentence, a library whose
  arithmetic never raises and changes nothing, a model in evaluation mode, and training
  sets of four and of three sentences, each one token of id \<open>2\<close> and one padding id.
\<close>

fun split_blank :: "string \<Rightarrow> string \<Rightarrow> string list" where
  "split_blank cur [] = (if cur = [] then [] else [cur])"
| "split_blank cur (c # cs) =
     (if c = CHR '' ''
      then (if cur = [] then split_blank [] cs else cur # split_blank [] cs)
      else split_blank (cur @ [c]) cs)"

definition blank_tokenize :: tokenizer where
  "blank_tokenize sentence = split_blank [] sentence"

definition insertion_order :: "string list \<Rightarrow> string list" where
  "insertion_order xs = rev (remdups (rev xs))"

definition sevens :: "nat \<Rightarrow> nat \<Rightarrow> rat" where
  "sevens i j = 7"

definition demo_args :: args where
  "demo_args = \<lparr>seq_len = 2, use_packed_sequence = True, embedding_dim = 50,
                 n_epochs = 10, batch_size = 2\<rparr>"

definition demo_glove :: "nat \<rightharpoonup> rat list" where
  "demo_glove token_id = (if token_id = 1 then Some (replicate 50 (1 / 2)) else None)"

definition demo_outcomes :: "(string \<times> rat) list" where
  "demo_outcomes = [(''epoch0'', 50), (''epoch1'', 70), (''epoch2'', 70), (''epoch3'', 60)]"

definition half_zero_weight :: "rat tensor2" where
  "half_zero_weight =
     \<lparr>shape2 = (3, 50),
      el2 = (\<lambda>token_id k. if token_id = 0 then 0 else if token_id = 1 \<and> k < 25 then 0 else 1)\<rparr>"

definition two_word_batch :: "nat tensor2" where
  "two_word_batch = \<lparr>shape2 = (1, 2), el2 = (\<lambda>b t. 1)\<rparr>"

definition one_word_batch :: "nat tensor2" where
  "one_word_batch = \<lparr>shape2 = (1, 2), el2 = (\<lambda>b t. if t = 0 then 2 else 0)\<rparr>"

definition quiet_library :: "(rat, unit, unit, unit) library" where
  "quiet_library =
     \<lparr>lstm_to_mean = (\<lambda>p t x packed. Inr ()),
      norm_drop_out = (\<lambda>p t h. Inr ()),
      loss_backward_step = (\<lambda>m logits y. Inr ((embedding_weight m, other_params m), 0))\<rparr>"

definition demo_network :: "(rat, unit) network" where
  "demo_network = \<lparr>embedding_weight = half_zero_weight, other_params = (), training = False\<rparr>"

definition four_sentences :: "nat tensor2" where
  "four_sentences = \<lparr>shape2 = (4, 2), el2 = (\<lambda>i t. if t = 0 then 2 else 0)\<rparr>"

definition three_sentences :: "nat tensor2" where
  "three_sentences = \<lparr>shape2 = (3, 2), el2 = (\<lambda>i t. if t = 0 then 2 else 0)\<rparr>"

section \<open>Properties\<close>

subsection \<open>Auxiliary facts\<close>

lemma msl_loop_tokens:
  "fst (msl_loop tok ss (tokens, m)) = tokens @ concat (map tok ss)"
  by (induction ss arbitrary: tokens m) (simp_all add: Let_def)

lemma msl_loop_fold:
  "snd (msl_loop tok ss (tokens, m)) = fold max (map (\<lambda>s. length (tok s)) ss) m"
  by (induction ss arbitrary: tokens m) (simp_all add: Let_def max_def)

lemma msl_loop_max:
  "snd (msl_loop tok ss (tokens, m)) = Max (insert m ((\<lambda>s. length (tok s)) ` set ss))"
  using Max.set_eq_fold [of m "map (\<lambda>s. length (tok s)) ss"]
  by (simp add: msl_loop_fold)

lemma find_append_split:
  "find P (xs @ ys) = (case find P xs of None \<Rightarrow> find P ys | Some x \<Rightarrow> Some x)"
  by (induction xs) simp_all

lemma word_ids_loop_eq:
  "word_ids_loop vd ts acc =
     (case find (\<lambda>t. map_of vd t = None) ts of
        Some t \<Rightarrow> Inl (KeyError t)
      | None \<Rightarrow> Inr (acc @ ids_of vd ts))"
  by (induction ts arbitrary: acc)
     (auto simp: dict_getitem_def ids_of_def split: option.splits)

lemma length_padded_row: "length (padded_row pad_to ids) = pad_to"
  by (simp add: padded_row_def truncates_def)

lemma convert_loop_eq:
  assumes "nd_shape x = (n, pad_to)" "length (nd_rows x) = n" "k + length ss \<le> n"
  shows "convert_loop tok vd pad_to (enumerate k ss) x =
     (case find (\<lambda>t. map_of vd t = None) (concat (map tok ss)) of
        Some t \<Rightarrow> Inl (KeyError t)
      | None \<Rightarrow> Inr (x\<lparr>nd_rows := map (\<lambda>i. if k \<le> i \<and> i < k + length ss
            then map of_nat (padded_row pad_to (ids_of vd (tok (ss ! (i - k)))))
            else nd_rows x ! i) [0 ..< n]\<rparr>))"
  using assms
proof (induction ss arbitrary: k x)
  case Nil
  have "(\<lambda>i. if k \<le> i \<and> i < k + length ([]::string list)
            then map of_nat (padded_row pad_to (ids_of vd (tok ([] ! (i - k)))))
            else nd_rows x ! i) = (\<lambda>i. nd_rows x ! i)"
    by (rule ext) auto
  moreover have "map (\<lambda>i. nd_rows x ! i) [0 ..< n] = nd_rows x"
    using Nil map_nth [of "nd_rows x"] by simp
  ultimately show ?case by simp
next
  case (Cons s ss)
  show ?case
  proof (cases "find (\<lambda>t. map_of vd t = None) (tok s)")
    case (Some t)
    then show ?thesis
      by (simp add: word_ids_loop_eq find_append_split)
  next
    case None
    let ?x' = "x\<lparr>nd_rows := (nd_rows x)[k := map of_nat (padded_row pad_to (ids_of vd (tok s)))]\<rparr>"
    have set: "nd_setitem x k (padded_row pad_to (ids_of vd (tok s))) = Inr ?x'"
      using Cons.prems by (simp add: nd_setitem_def length_padded_row)
    have IH: "convert_loop tok vd pad_to (enumerate (Suc k) ss) ?x' =
     (case find (\<lambda>t. map_of vd t = None) (concat (map tok ss)) of
        Some t \<Rightarrow> Inl (KeyError t)
      | None \<Rightarrow> Inr (?x'\<lparr>nd_rows := map (\<lambda>i. if Suc k \<le> i \<and> i < Suc k + length ss
            then map of_nat (padded_row pad_to (ids_of vd (tok (ss ! (i - Suc k)))))
            else nd_rows ?x' ! i) [0 ..< n]\<rparr>))"
      using Cons.prems by (intro Cons.IH) simp_all
    have rows: "map (\<lambda>i. if Suc k \<le> i \<and> i < Suc k + length ss
            then map of_nat (padded_row pad_to (ids_of vd (tok (ss ! (i - Suc k)))))
            else nd_rows ?x' ! i) [0 ..< n]
       = map (\<lambda>i. if k \<le> i \<and> i < k + length (s # ss)
            then map of_nat (padded_row pad_to (ids_of vd (tok ((s # ss) ! (i - k)))))
            else nd_rows x ! i) [0 ..< n]"
    proof (rule map_cong [OF refl])
      fix i assume "i \<in> set [0 ..< n]"
      then have "i < length (nd_rows x)" using Cons.prems by simp
      then show "(if Suc k \<le> i \<and> i < Suc k + length ss
            then map of_nat (padded_row pad_to (ids_of vd (tok (ss ! (i - Suc k)))))
            else nd_rows ?x' ! i)
        = (if k \<le> i \<and> i < k + length (s # ss)
            then map of_nat (padded_row pad_to (ids_of vd (tok ((s # ss) ! (i - k)))))
            else nd_rows x ! i)"
        by (cases "i = k") (auto simp: nth_Cons' Suc_diff_le nth_list_update)
    qed
    show ?thesis
      using None set IH rows
      by (simp add: word_ids_loop_eq find_append_split split: option.splits)
  qed
qed

lemma find_missing_None:
  "find (\<lambda>t. map_of vd t = None) ts = None \<longleftrightarrow> set ts \<subseteq> fst ` set vd"
  by (auto simp: find_None_iff map_of_eq_None_iff)

lemma find_missing_Some:
  "find (\<lambda>t. map_of vd t = None) ts = Some u \<Longrightarrow> u \<in> set ts \<and> u \<notin> fst ` set vd"
  by (auto simp: find_Some_iff map_of_eq_None_iff)

lemma convert_to_ids_eq:
  "convert_to_ids garbage tok raw vd pad_to =
     (case find (\<lambda>t. map_of vd t = None) (concat (map tok raw)) of
        Some t \<Rightarrow> Inl (KeyError t)
      | None \<Rightarrow> Inr \<lparr>nd_dtype = Float64, nd_shape = (length raw, pad_to),
           nd_rows = map (\<lambda>i. map of_nat (padded_row pad_to (ids_of vd (tok (raw ! i)))))
                       [0 ..< length raw]\<rparr>)"
proof -
  define x where "x = np_empty garbage (length raw, pad_to)"
  have shp: "nd_shape x = (length raw, pad_to)" and len: "length (nd_rows x) = length raw"
    and dt: "nd_dtype x = Float64"
    by (simp_all add: x_def np_empty_def)
  have rows: "map (\<lambda>i. if 0 \<le> i \<and> i < 0 + length raw
            then map of_nat (padded_row pad_to (ids_of vd (tok (raw ! (i - 0)))))
            else nd_rows x ! i) [0 ..< length raw]
       = map (\<lambda>i. map of_nat (padded_row pad_to (ids_of vd (tok (raw ! i))))) [0 ..< length raw]"
    by (rule map_cong [OF refl]) simp
  have upd: "\<And>r. x\<lparr>nd_rows := r\<rparr> = \<lparr>nd_dtype = Float64, nd_shape = (length raw, pad_to), nd_rows = r\<rparr>"
    by (simp add: x_def np_empty_def)
  have "convert_loop tok vd pad_to (enumerate 0 raw) x =
     (case find (\<lambda>t. map_of vd t = None) (concat (map tok raw)) of
        Some t \<Rightarrow> Inl (KeyError t)
      | None \<Rightarrow> Inr (x\<lparr>nd_rows := map (\<lambda>i. if 0 \<le> i \<and> i < 0 + length raw
            then map of_nat (padded_row pad_to (ids_of vd (tok (raw ! (i - 0)))))
            else nd_rows x ! i) [0 ..< length raw]\<rparr>))"
    using shp len by (intro convert_loop_eq) simp_all
  then show ?thesis
    unfolding convert_to_ids_def x_def [symmetric] rows upd .
qed

lemma extract_unfold:
  "extract_vocab_dict_and_msl set_iter tok tr dev val =
     (zip (set_iter (concat (map tok (tr @ dev @ val))))
          [1 ..< length (remdups (concat (map tok (tr @ dev @ val)))) + 1],
      Max (insert 0 ((\<lambda>s. length (tok s)) ` set (tr @ dev @ val))))"
proof -
  obtain tokens m where tm: "msl_loop tok (tr @ dev @ val) ([], 0) = (tokens, m)"
    by (cases "msl_loop tok (tr @ dev @ val) ([], 0)")
  have "tokens = concat (map tok (tr @ dev @ val))"
    using msl_loop_tokens [of tok "tr @ dev @ val" "[]" 0] tm by simp
  moreover have "m = Max (insert 0 ((\<lambda>s. length (tok s)) ` set (tr @ dev @ val)))"
    using msl_loop_max [of tok "tr @ dev @ val" "[]" 0] tm by simp
  ultimately show ?thesis
    using tm by (simp add: extract_vocab_dict_and_msl_def)
qed

lemma vocab_keys_values:
  assumes "set_iteration set_iter"
  shows "map fst (zip (set_iter tokens) [1 ..< length (remdups tokens) + 1]) = set_iter tokens"
    and "map snd (zip (set_iter tokens) [1 ..< length (remdups tokens) + 1])
           = [1 ..< card (set tokens) + 1]"
proof -
  have d: "distinct (set_iter tokens)" and s: "set (set_iter tokens) = set tokens"
    using assms by (simp_all add: set_iteration_def)
  have "length (set_iter tokens) = card (set tokens)"
    using distinct_card [OF d] s by simp
  moreover have "length (remdups tokens) = card (set tokens)"
    by (simp add: length_remdups_card_conv)
  ultimately have eq: "length (set_iter tokens) = length (remdups tokens)"
    and n: "length (remdups tokens) = card (set tokens)"
    by simp_all
  have "length [1 ..< length (remdups tokens) + 1] = length (remdups tokens)"
    by (simp only: length_upt add_diff_cancel_right')
  with eq have len: "length (set_iter tokens) = length [1 ..< length (remdups tokens) + 1]"
    by (simp only:)
  show "map fst (zip (set_iter tokens) [1 ..< length (remdups tokens) + 1]) = set_iter tokens"
    using len by (rule map_fst_zip)
  show "map snd (zip (set_iter tokens) [1 ..< length (remdups tokens) + 1])
           = [1 ..< card (set tokens) + 1]"
    using map_snd_zip [OF len] n by simp
qed

lemma msl_bounds:
  assumes "s \<in> set ss"
  shows "length (tok s) \<le> Max (insert 0 ((\<lambda>s. length (tok s)) ` set ss))"
  using assms by (intro Max_ge) auto

lemma tensor_max_Max: "counts \<noteq> [] \<Longrightarrow> tensor_max counts = Inr (Max (set counts))"
proof (cases counts)
  case Nil
  assume "counts \<noteq> []"
  with Nil show ?thesis by simp
next
  case (Cons c cs)
  have "Max (set (c # cs)) = fold max cs c" by (rule Max.set_eq_fold)
  with Cons show ?thesis by (simp only: tensor_max_def list.case)
qed

lemma unique_counts_set:
  "set (snd (torch_unique_counts y)) = count_list y ` set y"
  by (simp add: torch_unique_counts_def Let_def)

lemma unique_counts_Nil: "snd (torch_unique_counts y) = [] \<longleftrightarrow> y = []"
proof -
  have "set (sort (remdups y)) = set y" by simp
  then have "sort (remdups y) = [] \<longleftrightarrow> y = []"
    by (metis set_empty)
  then show ?thesis
    by (simp add: torch_unique_counts_def Let_def)
qed

lemma no_information_rate_eq:
  assumes "y_dev \<noteq> []"
  shows "no_information_rate y_dev =
           Inr (100 * of_nat (Max (count_list y_dev ` set y_dev)) / of_nat (length y_dev))"
proof -
  have "snd (torch_unique_counts y_dev) \<noteq> []"
    using assms by (simp add: unique_counts_Nil)
  then have "tensor_max (snd (torch_unique_counts y_dev)) = Inr (Max (count_list y_dev ` set y_dev))"
    by (simp add: tensor_max_Max unique_counts_set)
  then show ?thesis
    using assms by (simp add: no_information_rate_def Let_def)
qed

lemma torch_empty_shape:
  "length (torch_empty garbage r c) = r"
  "i < r \<Longrightarrow> torch_empty garbage r c ! i = map (garbage i) [0 ..< c]"
  by (simp_all add: torch_empty_def)

lemma glove_loop_char:
  assumes "\<forall>i < length t. length (t ! i) = 50"
    and "\<forall>i \<in> set ids. i < length t"
    and "\<forall>i \<in> set ids. \<forall>v. g i = Some v \<longrightarrow> length v = 50"
  shows "glove_loop g ids t =
           Inr (map (\<lambda>i. if i \<in> set ids
                          then (case g i of Some v \<Rightarrow> v | None \<Rightarrow> replicate 50 1)
                          else t ! i) [0 ..< length t])"
  using assms
proof (induction ids arbitrary: t)
  case Nil
  show ?case using map_nth [of t] by simp
next
  case (Cons i ids)
  let ?r = "case g i of Some v \<Rightarrow> v | None \<Rightarrow> replicate 50 1"
  let ?t = "t[i := ?r]"
  have i: "i < length t" using Cons.prems(2) by simp
  have lr: "length ?r = 50"
    using Cons.prems(3) by (cases "g i") simp_all
  have li: "length (t ! i) = 50" using Cons.prems(1) i by simp
  have step: "(case g i of Some v \<Rightarrow> setitem_row t i v
               | None \<Rightarrow> setitem_row t i (replicate 50 1)) = Inr ?t"
    using i lr li by (cases "g i") (simp_all add: setitem_row_def)
  have rows: "\<forall>j < length ?t. length (?t ! j) = 50"
    using Cons.prems(1) lr i by (auto simp: nth_list_update)
  have ids: "\<forall>j \<in> set ids. j < length ?t" using Cons.prems(2) by simp
  have vec: "\<forall>j \<in> set ids. \<forall>v. g j = Some v \<longrightarrow> length v = 50"
    using Cons.prems(3) by simp
  have IH: "glove_loop g ids ?t =
           Inr (map (\<lambda>j. if j \<in> set ids
                          then (case g j of Some v \<Rightarrow> v | None \<Rightarrow> replicate 50 1)
                          else ?t ! j) [0 ..< length ?t])"
    using rows ids vec by (rule Cons.IH)
  have eq: "map (\<lambda>j. if j \<in> set ids
                          then (case g j of Some v \<Rightarrow> v | None \<Rightarrow> replicate 50 1)
                          else ?t ! j) [0 ..< length ?t]
          = map (\<lambda>j. if j \<in> set (i # ids)
                          then (case g j of Some v \<Rightarrow> v | None \<Rightarrow> replicate 50 1)
                          else t ! j) [0 ..< length t]"
  proof -
    have "\<And>j. j < length t \<Longrightarrow>
            (if j \<in> set ids then (case g j of Some v \<Rightarrow> v | None \<Rightarrow> replicate 50 1) else ?t ! j)
          = (if j \<in> set (i # ids) then (case g j of Some v \<Rightarrow> v | None \<Rightarrow> replicate 50 1) else t ! j)"
      by (simp add: nth_list_update)
    then show ?thesis by simp
  qed
  show ?case
    by (simp only: glove_loop.simps step sum.case IH eq)
qed

lemma get_glove_table_char:
  fixes glove_dict :: "nat \<rightharpoonup> 'a::{zero,one} list"
  assumes "snd ` set vocab_dict = {1 .. length vocab_dict}"
    and "\<forall>i \<in> {1 .. length vocab_dict}. \<forall>v. glove_dict i = Some v \<longrightarrow> length v = 50"
  shows "\<exists>lookup_table.
           get_glove_table garbage vocab_dict glove_dict = Inr lookup_table \<and>
           length lookup_table = length vocab_dict + 2 \<and>
           (\<forall>i < length vocab_dict + 2. length (lookup_table ! i) = 50) \<and>
           lookup_table ! 0 = replicate 50 0 \<and>
           (\<forall>i \<in> {1 .. length vocab_dict}.
              lookup_table ! i = (case glove_dict i of Some v \<Rightarrow> v | None \<Rightarrow> replicate 50 1)) \<and>
           (\<forall>i < length vocab_dict + 2. i \<notin> {0 .. length vocab_dict} \<longrightarrow>
              lookup_table ! i = map (garbage i) [0 ..< 50])"
proof -
  define V where "V = length vocab_dict"
  define n where "n = V + 2"
  define t0 where "t0 = torch_empty garbage n 50"
  define ids where "ids = sort (map snd vocab_dict)"
  define row where "row = (\<lambda>i. case glove_dict i of Some v \<Rightarrow> v | None \<Rightarrow> replicate 50 (1::'a))"
  define t1 where "t1 = map (\<lambda>i. if i \<in> set ids then row i else t0 ! i) [0 ..< length t0]"
  define T where "T = t1[0 := replicate 50 0]"
  have sids: "set ids = {1 .. V}" using assms(1) by (simp add: ids_def V_def)
  have l0: "length t0 = n" by (simp add: t0_def torch_empty_shape)
  have n0: "\<And>i. i < n \<Longrightarrow> t0 ! i = map (garbage i) [0 ..< 50]"
    by (simp add: t0_def torch_empty_shape)
  have r0: "\<forall>i < length t0. length (t0 ! i) = 50"
    using n0 by (simp add: l0)
  have b: "\<forall>i \<in> set ids. i < length t0"
    unfolding sids l0 n_def by simp
  have v: "\<forall>i \<in> set ids. \<forall>v. glove_dict i = Some v \<longrightarrow> length v = 50"
    unfolding sids V_def using assms(2) .
  have loop: "glove_loop glove_dict ids t0 = Inr t1"
    unfolding t1_def row_def using r0 b v by (rule glove_loop_char)
  have l1: "length t1 = n" by (simp add: t1_def l0)
  have n1: "\<And>i. i < n \<Longrightarrow> t1 ! i = (if i \<in> {1 .. V} then row i else map (garbage i) [0 ..< 50])"
    by (simp add: t1_def l0 sids n0)
  have lrow: "\<And>i. i \<in> {1 .. V} \<Longrightarrow> length (row i) = 50"
    using assms(2) by (simp add: row_def V_def split: option.splits)
  have len1: "\<And>i. i < n \<Longrightarrow> length (t1 ! i) = 50"
  proof -
    fix i assume i: "i < n"
    show "length (t1 ! i) = 50"
    proof (cases "i \<in> {1 .. V}")
      case True
      then have "t1 ! i = row i"
        by (simp only: n1 [OF i] if_True)
      then show ?thesis using lrow [OF True] by simp
    next
      case False
      then have "t1 ! i = map (garbage i) [0 ..< 50]"
        by (simp only: n1 [OF i] if_False)
      then show ?thesis by simp
    qed
  qed
  have pos: "0 < n" by (simp add: n_def)
  have "length (t1 ! 0) = 50" using pos by (rule len1)
  then have fin: "setitem_row t1 0 (replicate 50 0) = Inr T"
    using pos by (simp add: setitem_row_def l1 T_def)
  have res: "get_glove_table garbage vocab_dict glove_dict = Inr T"
    using loop fin by (simp add: get_glove_table_def ids_def t0_def n_def V_def)
  have lT: "length T = n" by (simp add: T_def l1)
  have T0: "T ! 0 = replicate 50 0" using pos by (simp add: T_def l1)
  have Ti: "\<And>i. 0 < i \<Longrightarrow> T ! i = t1 ! i"
    by (simp add: T_def)
  have c3: "\<forall>i < n. length (T ! i) = 50"
  proof (intro allI impI)
    fix i assume i: "i < n"
    show "length (T ! i) = 50"
    proof (cases "i = 0")
      case True
      then show ?thesis using T0 by simp
    next
      case False
      then have "T ! i = t1 ! i" using Ti by simp
      then show ?thesis using len1 [OF i] by simp
    qed
  qed
  have c5: "\<forall>i \<in> {1 .. V}. T ! i = row i"
  proof
    fix i assume i: "i \<in> {1 .. V}"
    then have "i < n" by (simp add: n_def)
    then have "t1 ! i = row i" using i n1 [of i] by simp
    moreover have "T ! i = t1 ! i" using i Ti by simp
    ultimately show "T ! i = row i" by simp
  qed
  have c6: "\<forall>i < n. i \<notin> {0 .. V} \<longrightarrow> T ! i = map (garbage i) [0 ..< 50]"
  proof (intro allI impI)
    fix i assume i: "i < n" and o: "i \<notin> {0 .. V}"
    then have "T ! i = t1 ! i" using Ti by simp
    moreover have "t1 ! i = map (garbage i) [0 ..< 50]" using i o n1 [of i] by simp
    ultimately show "T ! i = map (garbage i) [0 ..< 50]" by simp
  qed
  from res lT c3 T0 c5 c6 show ?thesis
    unfolding n_def V_def row_def by (intro exI [of _ T] conjI)
qed

lemma epoch_loop_append:
  "epoch_loop S (xs @ ys) st = epoch_loop S ys (epoch_loop S xs st)"
  by (induction xs arbitrary: st) auto

lemma training_loop_snoc:
  "training_loop S (ocs @ [oc]) file = checkpoint_step S (length ocs) oc (training_loop S ocs file)"
  by (simp add: training_loop_def enumerate_append_eq epoch_loop_append)

lemma training_loop_Nil:
  "training_loop S [] file = \<lparr>acc_dev_best = 0, checkpoint = file, saved_at = []\<rparr>"
  by (simp add: training_loop_def)

lemma best_Max:
  fixes ocs :: "('m \<times> 'a::{zero,linorder}) list"
  shows "acc_dev_best (training_loop True ocs file) = Max (insert 0 (snd ` set ocs))"
proof (induction ocs rule: rev_induct)
  case Nil
  show ?case by (simp add: training_loop_Nil)
next
  case (snoc oc ocs)
  have "insert 0 (snd ` set (ocs @ [oc])) = insert (snd oc) (insert 0 (snd ` set ocs))"
    by auto
  moreover have "Max (insert (snd oc) (insert 0 (snd ` set ocs)))
                   = max (snd oc) (Max (insert 0 (snd ` set ocs)))"
    by (rule Max_insert) simp_all
  ultimately have "Max (insert 0 (snd ` set (ocs @ [oc])))
                     = max (snd oc) (Max (insert 0 (snd ` set ocs)))"
    by (simp only:)
  then have M: "Max (insert 0 (snd ` set (ocs @ [oc])))
                  = max (snd oc) (acc_dev_best (training_loop True ocs file))"
    by (simp only: snoc)
  have "acc_dev_best (training_loop True (ocs @ [oc]) file)
          = (if acc_dev_best (training_loop True ocs file) < snd oc then snd oc
             else acc_dev_best (training_loop True ocs file))"
    by (simp add: training_loop_snoc checkpoint_step_def Let_def)
  also have "\<dots> = max (snd oc) (acc_dev_best (training_loop True ocs file))"
    by (auto simp: max_def)
  finally show ?case by (simp only: M)
qed

lemma saved_at_filter:
  fixes ocs :: "('m \<times> 'a::{zero,linorder}) list"
  shows "saved_at (training_loop True ocs file) =
           filter (\<lambda>e. acc_dev_best (training_loop True (take e ocs) file) < snd (ocs ! e))
                  [0 ..< length ocs]"
proof (induction ocs rule: rev_induct)
  case Nil
  show ?case by (simp add: training_loop_Nil)
next
  case (snoc oc ocs)
  have old: "filter (\<lambda>e. acc_dev_best (training_loop True (take e (ocs @ [oc])) file) < snd ((ocs @ [oc]) ! e))
                  [0 ..< length ocs]
           = filter (\<lambda>e. acc_dev_best (training_loop True (take e ocs) file) < snd (ocs ! e))
                  [0 ..< length ocs]"
    by (rule filter_cong [OF refl]) (simp add: nth_append)
  show ?case
    using snoc old
    by (simp add: training_loop_snoc checkpoint_step_def Let_def)
qed

lemma last_saved:
  fixes ocs :: "('m \<times> 'a::{zero,linorder}) list"
  shows "(saved_at (training_loop True ocs file) = [] \<longrightarrow>
            checkpoint (training_loop True ocs file) = file \<and>
            acc_dev_best (training_loop True ocs file) = 0) \<and>
         (saved_at (training_loop True ocs file) \<noteq> [] \<longrightarrow>
            last (saved_at (training_loop True ocs file)) < length ocs \<and>
            checkpoint (training_loop True ocs file)
              = Some (fst (ocs ! last (saved_at (training_loop True ocs file)))) \<and>
            acc_dev_best (training_loop True ocs file)
              = snd (ocs ! last (saved_at (training_loop True ocs file))))"
proof (induction ocs rule: rev_induct)
  case Nil
  show ?case by (simp add: training_loop_Nil)
next
  case (snoc oc ocs)
  let ?st = "training_loop True ocs file"
  show ?case
  proof (cases "acc_dev_best ?st < snd oc")
    case True
    then show ?thesis
      by (simp add: training_loop_snoc checkpoint_step_def Let_def)
  next
    case False
    then have same: "training_loop True (ocs @ [oc]) file = ?st"
      by (simp add: training_loop_snoc checkpoint_step_def Let_def)
    show ?thesis
    proof (cases "saved_at ?st = []")
      case True
      then show ?thesis using snoc same by simp
    next
      case ne: False
      then have l: "last (saved_at ?st) < length ocs" using snoc by simp
      then have "(ocs @ [oc]) ! last (saved_at ?st) = ocs ! last (saved_at ?st)"
        by (simp add: nth_append)
      then show ?thesis using snoc same ne l by simp
    qed
  qed
qed

lemma sum_list_indicator:
  "sum_list (map (\<lambda>i. if P i then c else 0) xs) = c * length (filter P xs)"
  by (induction xs) simp_all

lemma count_zero_rows_times:
  fixes t :: "'a::zero tensor2"
  assumes "snd (shape2 t) = 50"
    and "\<forall>i < fst (shape2 t). (\<forall>k < 50. el2 t i k = 0) \<or> (\<forall>k < 50. el2 t i k \<noteq> 0)"
  shows "count_zero t = 50 * count_zero_rows t"
proof -
  have row: "\<And>i. i \<in> set [0 ..< fst (shape2 t)] \<Longrightarrow>
           length (filter (\<lambda>k. el2 t i k = 0) [0 ..< 50]) =
           (if list_all (\<lambda>k. el2 t i k = 0) [0 ..< 50] then 50 else 0)"
  proof -
    fix i assume "i \<in> set [0 ..< fst (shape2 t)]"
    then have i: "i < fst (shape2 t)" by simp
    show "length (filter (\<lambda>k. el2 t i k = 0) [0 ..< 50]) =
           (if list_all (\<lambda>k. el2 t i k = 0) [0 ..< 50] then 50 else 0)"
    proof (cases "\<forall>k < 50. el2 t i k = 0")
      case True
      then have "filter (\<lambda>k. el2 t i k = 0) [0 ..< 50] = [0 ..< 50]"
        by (intro filter_True) simp
      moreover have "list_all (\<lambda>k. el2 t i k = 0) [0 ..< 50]"
        using True by (simp add: list_all_iff)
      ultimately show ?thesis by simp
    next
      case False
      then have nz: "\<forall>k < 50. el2 t i k \<noteq> 0" using assms(2) i by blast
      then have "filter (\<lambda>k. el2 t i k = 0) [0 ..< 50] = []"
        by (intro filter_False) simp
      moreover have "\<not> list_all (\<lambda>k. el2 t i k = 0) [0 ..< 50]"
      proof
        assume "list_all (\<lambda>k. el2 t i k = 0) [0 ..< 50]"
        then have "el2 t i 0 = 0" by (simp add: list_all_iff)
        moreover have "el2 t i 0 \<noteq> 0" using nz by simp
        ultimately show False by simp
      qed
      ultimately show ?thesis by simp
    qed
  qed
  have "map (\<lambda>i. length (filter (\<lambda>k. el2 t i k = 0) [0 ..< 50])) [0 ..< fst (shape2 t)]
      = map (\<lambda>i. if list_all (\<lambda>k. el2 t i k = 0) [0 ..< 50] then 50 else 0) [0 ..< fst (shape2 t)]"
    by (rule map_cong [OF refl]) (rule row)
  then show ?thesis
    by (simp only: count_zero_def count_zero_rows_def assms(1) sum_list_indicator)
qed

lemma embedding_Inr:
  assumes "embedding weight x0 = Inr emb"
  shows "shape3 emb = (fst (shape2 x0), snd (shape2 x0), snd (shape2 weight))"
    and "el3 emb = (\<lambda>b t k. el2 weight (el2 x0 b t) k)"
    and "\<forall>b < fst (shape2 x0). \<forall>t < snd (shape2 x0). el2 x0 b t < fst (shape2 weight)"
proof -
  have n: "\<not> list_ex (\<lambda>b. list_ex (\<lambda>t. fst (shape2 weight) \<le> el2 x0 b t) [0 ..< snd (shape2 x0)])
           [0 ..< fst (shape2 x0)]"
    using assms by (auto simp: embedding_def split: if_splits)
  then have e: "emb = \<lparr>shape3 = (fst (shape2 x0), snd (shape2 x0), snd (shape2 weight)),
                el3 = (\<lambda>b t k. el2 weight (el2 x0 b t) k)\<rparr>"
    using assms by (simp add: embedding_def)
  show "shape3 emb = (fst (shape2 x0), snd (shape2 x0), snd (shape2 weight))"
    by (simp add: e)
  show "el3 emb = (\<lambda>b t k. el2 weight (el2 x0 b t) k)"
    by (simp add: e)
  show "\<forall>b < fst (shape2 x0). \<forall>t < snd (shape2 x0). el2 x0 b t < fst (shape2 weight)"
    using n by (auto simp: list_ex_iff not_le)
qed

lemma forward_empty_batch:
  assumes "use_packed_sequence a" and "fst (shape2 x0) = 0"
  shows "forward lib a m x0 = Inl RuntimeError"
  using assms
  by (simp add: forward_def forward_lenghts_def embedding_def permute_1_0_2_def
        pack_padded_sequence_def Let_def)

lemma forward_single_training:
  assumes "training m" and "fst (shape2 x0) = 1"
  shows "forward lib a m x0 \<noteq> Inr logits"
  using assms
  by (auto simp: forward_def network_tail_def Let_def split: sum.splits option.splits)

lemma train_loop_last_raises:
  assumes "\<And>m logits. training m \<Longrightarrow>
             forward lib a m (slice_rows x (k * batch_size a) ((k + 1) * batch_size a)) \<noteq> Inr logits"
    and "training (model st)"
  shows "fst (train_loop lib a x y (ks @ [k]) st) \<noteq> None"
  using assms(2)
proof (induction ks arbitrary: st)
  case Nil
  obtain e where "forward lib a (model st) (slice_rows x (k * batch_size a) ((k + 1) * batch_size a)) = Inl e"
    using assms(1) [OF Nil]
    by (cases "forward lib a (model st) (slice_rows x (k * batch_size a) ((k + 1) * batch_size a))") simp_all
  then show ?case by (simp add: Let_def)
next
  case (Cons b ks)
  let ?inds = "(b * batch_size a, (b + 1) * batch_size a)"
  show ?case
  proof (cases "forward lib a (model st) (slice_rows x (fst ?inds) (snd ?inds))")
    case (Inl e)
    then show ?thesis by (simp add: Let_def)
  next
    case (Inr logits)
    show ?thesis
    proof (cases "loss_backward_step lib (model st) logits (py_slice y (fst ?inds) (snd ?inds))")
      case (Inl e)
      then show ?thesis using Inr by (simp add: Let_def)
    next
      case upd: (Inr r)
      obtain w p loss where r: "r = ((w, p), loss)" by (cases r) auto
      let ?st = "\<lparr>model = (model st)\<lparr>embedding_weight := w, other_params := p\<rparr>,
                  loss_train = loss_train st + loss, train_steps = train_steps st + 1,
                  processed = processed st @ [(fst ?inds, min (snd ?inds) (fst (shape2 x)))]\<rparr>"
      have step: "train_loop lib a x y ((b # ks) @ [k]) st = train_loop lib a x y (ks @ [k]) ?st"
        using Inr upd r by (simp add: Let_def)
      have "training (model ?st)" using Cons.prems by simp
      then have "fst (train_loop lib a x y (ks @ [k]) ?st) \<noteq> None" by (rule Cons.IH)
      then show ?thesis unfolding step .
    qed
  qed
qed

lemma train_loop_processed:
  "\<exists>j \<le> length ks.
     processed (snd (train_loop lib a x y ks st))
       = processed st @ map (\<lambda>b. (b * batch_size a, min ((b + 1) * batch_size a) (fst (shape2 x))))
                            (take j ks) \<and>
     train_steps (snd (train_loop lib a x y ks st)) = train_steps st + j \<and>
     (fst (train_loop lib a x y ks st) = None \<longrightarrow> j = length ks) \<and>
     (fst (train_loop lib a x y ks st) \<noteq> None \<longrightarrow> j < length ks)"
proof (induction ks arbitrary: st)
  case Nil
  show ?case by simp
next
  case (Cons b ks)
  let ?inds = "(b * batch_size a, (b + 1) * batch_size a)"
  show ?case
  proof (cases "forward lib a (model st) (slice_rows x (fst ?inds) (snd ?inds))")
    case (Inl e)
    then have "train_loop lib a x y (b # ks) st = (Some e, st)"
      by (simp add: Let_def)
    then show ?thesis by (intro exI [of _ 0]) simp
  next
    case (Inr logits)
    show ?thesis
    proof (cases "loss_backward_step lib (model st) logits (py_slice y (fst ?inds) (snd ?inds))")
      case (Inl e)
      then have "train_loop lib a x y (b # ks) st = (Some e, st)"
        using Inr by (simp add: Let_def)
      then show ?thesis by (intro exI [of _ 0]) simp
    next
      case upd: (Inr r)
      obtain w p loss where r: "r = ((w, p), loss)" by (cases r) auto
      let ?st = "\<lparr>model = (model st)\<lparr>embedding_weight := w, other_params := p\<rparr>,
                  loss_train = loss_train st + loss, train_steps = train_steps st + 1,
                  processed = processed st @ [(fst ?inds, min (snd ?inds) (fst (shape2 x)))]\<rparr>"
      have step: "train_loop lib a x y (b # ks) st = train_loop lib a x y ks ?st"
        using Inr upd r by (simp add: Let_def)
      from Cons.IH [of ?st] obtain j where j: "j \<le> length ks"
        and pr: "processed (snd (train_loop lib a x y ks ?st))
                  = processed ?st @ map (\<lambda>b. (b * batch_size a, min ((b + 1) * batch_size a) (fst (shape2 x))))
                            (take j ks)"
        and ts: "train_steps (snd (train_loop lib a x y ks ?st)) = train_steps ?st + j"
        and n: "fst (train_loop lib a x y ks ?st) = None \<longrightarrow> j = length ks"
        and s: "fst (train_loop lib a x y ks ?st) \<noteq> None \<longrightarrow> j < length ks"
        by (elim exE conjE)
      show ?thesis
        using j pr ts n s unfolding step
        by (intro exI [of _ "Suc j"]) simp
    qed
  qed
qed

lemma ranges_cover:
  "concat (map (\<lambda>b. [b * n ..< min ((b + 1) * n) N]) [0 ..< k]) = [0 ..< min (k * n) N]"
proof (induction k)
  case 0
  show ?case by simp
next
  case (Suc k)
  have "[0 ..< min (k * n) N] @ [k * n ..< min ((k + 1) * n) N] = [0 ..< min ((k + 1) * n) N]"
  proof (cases "k * n \<le> N")
    case True
    then have "min (k * n) N = k * n" by simp
    moreover have "k * n \<le> min ((k + 1) * n) N" using True by simp
    moreover obtain d where "min ((k + 1) * n) N = k * n + d"
      using \<open>k * n \<le> min ((k + 1) * n) N\<close> le_Suc_ex by blast
    ultimately show ?thesis
      by (simp only: upt_add_eq_append [OF le0])
  next
    case False
    then have "min (k * n) N = N" "min ((k + 1) * n) N = N" by simp_all
    then show ?thesis using False by simp
  qed
  with Suc show ?case by simp
qed

lemma ranges_cover_all:
  assumes "0 < n"
  shows "concat (map (\<lambda>b. [b * n ..< min ((b + 1) * n) N]) [0 ..< N div n + 1]) = [0 ..< N]"
proof -
  have "N < (N div n + 1) * n"
    using assms by (metis Suc_eq_plus1 dividend_less_div_times mult.commute mult_Suc)
  then have "min ((N div n + 1) * n) N = N" by simp
  then show ?thesis by (simp only: ranges_cover)
qed

lemma train_pass_unfold:
  assumes "0 < batch_size a"
  shows "train_pass lib a m x y =
           train_loop lib a x y ([0 ..< fst (shape2 x) div batch_size a] @ [fst (shape2 x) div batch_size a])
             \<lparr>model = m\<lparr>training := True\<rparr>, loss_train = 0, train_steps = 0, processed = []\<rparr>"
  using assms by (simp add: train_pass_def Let_def)

lemma train_pass_divisible:
  assumes "use_packed_sequence a" and "0 < batch_size a"
    and "fst (shape2 x) mod batch_size a = 0"
  shows "fst (train_pass lib a m x y) \<noteq> None"
proof -
  let ?k = "fst (shape2 x) div batch_size a"
  have full: "?k * batch_size a = fst (shape2 x)"
    using assms(3) by (simp add: mod_eq_0_iff_dvd)
  have "fst (shape2 (slice_rows x (?k * batch_size a) ((?k + 1) * batch_size a))) = 0"
    by (simp add: slice_rows_def full)
  then have "\<And>m. forward lib a m (slice_rows x (?k * batch_size a) ((?k + 1) * batch_size a))
               = Inl RuntimeError"
    by (rule forward_empty_batch [OF assms(1)])
  then have "\<And>m logits. forward lib a m (slice_rows x (?k * batch_size a) ((?k + 1) * batch_size a))
               \<noteq> Inr logits"
    by (simp only: sum.distinct not_False_eq_True)
  then have "fst (train_loop lib a x y ([0 ..< ?k] @ [?k])
             \<lparr>model = m\<lparr>training := True\<rparr>, loss_train = 0, train_steps = 0, processed = []\<rparr>) \<noteq> None"
    by (intro train_loop_last_raises) simp_all
  then show ?thesis unfolding train_pass_unfold [OF assms(2)] .
qed

lemma train_pass_remainder_one:
  assumes "0 < batch_size a" and "fst (shape2 x) mod batch_size a = 1"
  shows "fst (train_pass lib a m x y) \<noteq> None"
    and "\<forall>r \<in> set (processed (snd (train_pass lib a m x y))). snd r < fst (shape2 x)"
proof -
  let ?N = "fst (shape2 x)"
  let ?n = "batch_size a"
  let ?k = "?N div ?n"
  let ?st = "\<lparr>model = m\<lparr>training := True\<rparr>, loss_train = 0, train_steps = 0, processed = []\<rparr>
               :: ('a, 'b) train_state"
  have N: "?N = ?k * ?n + 1"
    using assms(2) div_mult_mod_eq [of ?N ?n] by simp
  have n2: "2 \<le> ?n"
  proof (rule ccontr)
    assume "\<not> 2 \<le> ?n"
    then have "?n = 1" using assms(1) by simp
    then show False using assms(2) by simp
  qed
  have "?N < (?k + 1) * ?n" using N n2 by simp
  then have "min ((?k + 1) * ?n) ?N - ?k * ?n = 1" using N by simp
  then have one: "fst (shape2 (slice_rows x (?k * ?n) ((?k + 1) * ?n))) = 1"
    by (simp add: slice_rows_def)
  have "\<And>m logits. training m \<Longrightarrow>
          forward lib a m (slice_rows x (?k * ?n) ((?k + 1) * ?n)) \<noteq> Inr logits"
    using one by (rule forward_single_training [rotated])
  then have raise: "fst (train_loop lib a x y ([0 ..< ?k] @ [?k]) ?st) \<noteq> None"
    by (intro train_loop_last_raises) simp_all
  then show "fst (train_pass lib a m x y) \<noteq> None"
    unfolding train_pass_unfold [OF assms(1)] .
  from train_loop_processed [of "[0 ..< ?k] @ [?k]" lib a x y ?st]
  obtain j where j: "j \<le> length ([0 ..< ?k] @ [?k])"
    and pr: "processed (snd (train_loop lib a x y ([0 ..< ?k] @ [?k]) ?st))
               = processed ?st @ map (\<lambda>b. (b * ?n, min ((b + 1) * ?n) ?N)) (take j ([0 ..< ?k] @ [?k]))"
    and s: "fst (train_loop lib a x y ([0 ..< ?k] @ [?k]) ?st) \<noteq> None \<longrightarrow> j < length ([0 ..< ?k] @ [?k])"
    by (elim exE conjE)
  have jk: "j \<le> ?k" using s raise by simp
  then have tk: "take j ([0 ..< ?k] @ [?k]) = [0 ..< j]"
    by simp
  have "\<forall>r \<in> set (processed (snd (train_loop lib a x y ([0 ..< ?k] @ [?k]) ?st))). snd r < ?N"
  proof
    fix r assume "r \<in> set (processed (snd (train_loop lib a x y ([0 ..< ?k] @ [?k]) ?st)))"
    then obtain b where b: "b < j" and r: "r = (b * ?n, min ((b + 1) * ?n) ?N)"
      unfolding pr tk by auto
    have "b + 1 \<le> ?k" using b jk by simp
    then have "(b + 1) * ?n \<le> ?k * ?n" by (rule mult_le_mono1)
    then have "(b + 1) * ?n < ?N" using N by simp
    then show "snd r < ?N" by (simp add: r)
  qed
  then show "\<forall>r \<in> set (processed (snd (train_pass lib a m x y))). snd r < fst (shape2 x)"
    unfolding train_pass_unfold [OF assms(1)] .
qed

lemma train_pass_complete:
  assumes "fst (train_pass lib a m x y) = None"
  shows "processed (snd (train_pass lib a m x y))
           = map (\<lambda>b. (b * batch_size a, min ((b + 1) * batch_size a) (fst (shape2 x))))
                 [0 ..< fst (shape2 x) div batch_size a + 1]"
    and "concat (map (\<lambda>r. [fst r ..< snd r]) (processed (snd (train_pass lib a m x y))))
           = [0 ..< fst (shape2 x)]"
    and "train_steps (snd (train_pass lib a m x y)) = fst (shape2 x) div batch_size a + 1"
proof -
  let ?N = "fst (shape2 x)"
  let ?n = "batch_size a"
  let ?ks = "[0 ..< ?N div ?n + 1]"
  let ?st = "\<lparr>model = m\<lparr>training := True\<rparr>, loss_train = 0, train_steps = 0, processed = []\<rparr>
               :: ('a, 'b) train_state"
  have pos: "0 < ?n"
  proof (rule ccontr)
    assume "\<not> 0 < ?n"
    then have "fst (train_pass lib a m x y) = Some ZeroDivisionError"
      by (simp add: train_pass_def Let_def)
    then show False using assms by simp
  qed
  have tp: "train_pass lib a m x y = train_loop lib a x y ?ks ?st"
    using pos by (simp add: train_pass_def Let_def)
  from train_loop_processed [of ?ks lib a x y ?st]
  obtain j where j: "j \<le> length ?ks"
    and pr: "processed (snd (train_loop lib a x y ?ks ?st))
               = processed ?st @ map (\<lambda>b. (b * ?n, min ((b + 1) * ?n) ?N)) (take j ?ks)"
    and ts: "train_steps (snd (train_loop lib a x y ?ks ?st)) = train_steps ?st + j"
    and n: "fst (train_loop lib a x y ?ks ?st) = None \<longrightarrow> j = length ?ks"
    by (elim exE conjE)
  have jl: "j = length ?ks" using n assms tp by simp
  show p: "processed (snd (train_pass lib a m x y)) = map (\<lambda>b. (b * ?n, min ((b + 1) * ?n) ?N)) ?ks"
    using pr jl by (simp add: tp)
  have "map (\<lambda>r. [fst r ..< snd r]) (map (\<lambda>b. (b * ?n, min ((b + 1) * ?n) ?N)) ?ks)
          = map (\<lambda>b. [b * ?n ..< min ((b + 1) * ?n) ?N]) ?ks"
    by (simp add: comp_def)
  then show "concat (map (\<lambda>r. [fst r ..< snd r]) (processed (snd (train_pass lib a m x y)))) = [0 ..< ?N]"
    unfolding p using ranges_cover_all [OF pos, of ?N] by (simp only:)
  show "train_steps (snd (train_pass lib a m x y)) = ?N div ?n + 1"
    using ts jl by (simp add: tp)
qed

lemma acc_loop_last_raises:
  assumes "\<And>logits. forward lib a m (slice_rows x (k * batch_size a) ((k + 1) * batch_size a))
             \<noteq> Inr logits"
  shows "fst (acc_loop lib a m x (ks @ [k]) (ls, cs)) \<noteq> None"
proof (induction ks arbitrary: ls cs)
  case Nil
  obtain e where "forward lib a m (slice_rows x (k * batch_size a) ((k + 1) * batch_size a)) = Inl e"
    using assms
    by (cases "forward lib a m (slice_rows x (k * batch_size a) ((k + 1) * batch_size a))") simp_all
  then show ?case by (simp add: Let_def)
next
  case (Cons b ks)
  show ?case
  proof (cases "forward lib a m (slice_rows x (b * batch_size a) ((b + 1) * batch_size a))")
    case (Inl e)
    then show ?thesis by (simp add: Let_def)
  next
    case (Inr out)
    have step: "acc_loop lib a m x ((b # ks) @ [k]) (ls, cs) =
                  acc_loop lib a m x (ks @ [k])
                    (ls @ [out], cs @ [(b * batch_size a, min ((b + 1) * batch_size a) (fst (shape2 x)))])"
      using Inr by (simp add: Let_def)
    show ?thesis unfolding step by (rule Cons.IH)
  qed
qed

lemma acc_loop_called:
  "\<exists>j \<le> length ks.
     snd (snd (acc_loop lib a m x ks (ls, cs)))
       = cs @ map (\<lambda>b. (b * batch_size a, min ((b + 1) * batch_size a) (fst (shape2 x)))) (take j ks) \<and>
     length (fst (snd (acc_loop lib a m x ks (ls, cs)))) = length ls + j \<and>
     (fst (acc_loop lib a m x ks (ls, cs)) = None \<longrightarrow> j = length ks) \<and>
     (fst (acc_loop lib a m x ks (ls, cs)) \<noteq> None \<longrightarrow> j < length ks)"
proof (induction ks arbitrary: ls cs)
  case Nil
  show ?case by simp
next
  case (Cons b ks)
  show ?case
  proof (cases "forward lib a m (slice_rows x (b * batch_size a) ((b + 1) * batch_size a))")
    case (Inl e)
    then have "acc_loop lib a m x (b # ks) (ls, cs) = (Some e, ls, cs)"
      by (simp add: Let_def)
    then show ?thesis by (intro exI [of _ 0]) simp
  next
    case (Inr out)
    let ?ls = "ls @ [out]"
    let ?cs = "cs @ [(b * batch_size a, min ((b + 1) * batch_size a) (fst (shape2 x)))]"
    have step: "acc_loop lib a m x (b # ks) (ls, cs) = acc_loop lib a m x ks (?ls, ?cs)"
      using Inr by (simp add: Let_def)
    from Cons.IH [of ?ls ?cs] obtain j where j: "j \<le> length ks"
      and pr: "snd (snd (acc_loop lib a m x ks (?ls, ?cs)))
                 = ?cs @ map (\<lambda>b. (b * batch_size a, min ((b + 1) * batch_size a) (fst (shape2 x)))) (take j ks)"
      and ln: "length (fst (snd (acc_loop lib a m x ks (?ls, ?cs)))) = length ?ls + j"
      and n: "fst (acc_loop lib a m x ks (?ls, ?cs)) = None \<longrightarrow> j = length ks"
      and s: "fst (acc_loop lib a m x ks (?ls, ?cs)) \<noteq> None \<longrightarrow> j < length ks"
      by (elim exE conjE)
    show ?thesis
      using j pr ln n s unfolding step
      by (intro exI [of _ "Suc j"]) simp
  qed
qed

lemma acc_pass_unfold:
  assumes "0 < batch_size a"
  shows "acc_pass lib a m x =
           acc_loop lib a m x ([0 ..< fst (shape2 x) div batch_size a] @ [fst (shape2 x) div batch_size a])
             ([], [])"
  using assms by (simp add: acc_pass_def)

lemma acc_pass_divisible:
  assumes "use_packed_sequence a" and "0 < batch_size a"
    and "fst (shape2 x) mod batch_size a = 0"
  shows "fst (acc_pass lib a m x) \<noteq> None"
proof -
  let ?k = "fst (shape2 x) div batch_size a"
  have full: "?k * batch_size a = fst (shape2 x)"
    using assms(3) by (simp add: mod_eq_0_iff_dvd)
  have "fst (shape2 (slice_rows x (?k * batch_size a) ((?k + 1) * batch_size a))) = 0"
    by (simp add: slice_rows_def full)
  then have "forward lib a m (slice_rows x (?k * batch_size a) ((?k + 1) * batch_size a))
               = Inl RuntimeError"
    by (rule forward_empty_batch [OF assms(1)])
  then have "\<And>logits. forward lib a m (slice_rows x (?k * batch_size a) ((?k + 1) * batch_size a))
               \<noteq> Inr logits"
    by (simp only: sum.distinct not_False_eq_True)
  then have "fst (acc_loop lib a m x ([0 ..< ?k] @ [?k]) ([], [])) \<noteq> None"
    by (rule acc_loop_last_raises)
  then show ?thesis unfolding acc_pass_unfold [OF assms(2)] .
qed

lemma acc_pass_complete:
  assumes "fst (acc_pass lib a m x) = None"
  shows "snd (snd (acc_pass lib a m x))
           = map (\<lambda>b. (b * batch_size a, min ((b + 1) * batch_size a) (fst (shape2 x))))
                 [0 ..< fst (shape2 x) div batch_size a + 1]"
    and "concat (map (\<lambda>r. [fst r ..< snd r]) (snd (snd (acc_pass lib a m x)))) = [0 ..< fst (shape2 x)]"
proof -
  let ?N = "fst (shape2 x)"
  let ?n = "batch_size a"
  let ?ks = "[0 ..< ?N div ?n + 1]"
  have pos: "0 < ?n"
  proof (rule ccontr)
    assume "\<not> 0 < ?n"
    then have "fst (acc_pass lib a m x) = Some ZeroDivisionError"
      by (simp add: acc_pass_def)
    then show False using assms by simp
  qed
  have tp: "acc_pass lib a m x = acc_loop lib a m x ?ks ([], [])"
    using pos by (simp add: acc_pass_def)
  from acc_loop_called [of ?ks lib a m x "[]" "[]"]
  obtain j where j: "j \<le> length ?ks"
    and pr: "snd (snd (acc_loop lib a m x ?ks ([], [])))
               = [] @ map (\<lambda>b. (b * ?n, min ((b + 1) * ?n) ?N)) (take j ?ks)"
    and n: "fst (acc_loop lib a m x ?ks ([], [])) = None \<longrightarrow> j = length ?ks"
    by (elim exE conjE)
  have jl: "j = length ?ks" using n assms tp by simp
  show p: "snd (snd (acc_pass lib a m x)) = map (\<lambda>b. (b * ?n, min ((b + 1) * ?n) ?N)) ?ks"
    using pr jl by (simp add: tp)
  have "map (\<lambda>r. [fst r ..< snd r]) (map (\<lambda>b. (b * ?n, min ((b + 1) * ?n) ?N)) ?ks)
          = map (\<lambda>b. [b * ?n ..< min ((b + 1) * ?n) ?N]) ?ks"
    by (simp add: comp_def)
  then show "concat (map (\<lambda>r. [fst r ..< snd r]) (snd (snd (acc_pass lib a m x)))) = [0 ..< ?N]"
    unfolding p using ranges_cover_all [OF pos, of ?N] by (simp only:)
qed

text \<open>The concrete inputs, evaluated.\<close>

lemma tokenize_good_film: "blank_tokenize ''good film'' = [''good'', ''film'']"
  by code_simp

lemma tokenize_bad_film: "blank_tokenize ''bad film'' = [''bad'', ''film'']"
  by code_simp

lemma tokenize_bad_plot: "blank_tokenize ''bad plot'' = [''bad'', ''plot'']"
  by code_simp

lemma insertion_order_iteration: "set_iteration insertion_order"
  by (simp add: set_iteration_def insertion_order_def)

lemma extract_example:
  "extract_vocab_dict_and_msl insertion_order blank_tokenize
     [''good film''] [''bad film''] [''The the'']
   = ([(''good'', 1), (''film'', 2), (''bad'', 3), (''The'', 4), (''the'', 5)], 2)"
  by code_simp

lemma demo_vocab_ids:
  "snd ` set [(''good'', 1::nat), (''film'', 2)] = {1 .. length [(''good'', 1::nat), (''film'', 2)]}"
  by auto

lemma demo_glove_lengths:
  "\<forall>i \<in> {1 .. length [(''good'', 1::nat), (''film'', 2)]}.
     \<forall>v. demo_glove i = Some v \<longrightarrow> length v = 50"
  by (simp add: demo_glove_def)

lemma demo_rate: "no_information_rate [1, 0, 1, 1] = Inr 75"
  by code_simp

lemma demo_run:
  "training_loop True demo_outcomes None =
     \<lparr>acc_dev_best = 70, checkpoint = Some ''epoch1'', saved_at = [0, 1]\<rparr>"
  by (simp add: training_loop_def demo_outcomes_def checkpoint_step_def Let_def)

subsection \<open>Encoding sentences\<close>

text \<open>
  Claim C2. If any sentence passed to \<^verbatim>\<open>convert_to_ids\<close> contains a token that is not a
  key of the vocabulary, the call raises \<^verbatim>\<open>KeyError\<close> for a token that is not a key:
  the handler of the \<^verbatim>\<open>try\<close> repeats the failed lookup, so no id is substituted and no
  array is returned.
\<close>

theorem convert_to_ids_unknown_token:
  assumes "sentence \<in> set raw_sentences"
    and "token \<in> set (word_tokenize sentence)"
    and "token \<notin> fst ` set vocab_dict"
  shows "\<exists>u. u \<notin> fst ` set vocab_dict \<and>
           convert_to_ids garbage word_tokenize raw_sentences vocab_dict pad_to = Inl (KeyError u)"
proof -
  let ?ts = "concat (map word_tokenize raw_sentences)"
  have "token \<in> set ?ts" using assms(1,2) by auto
  then have "\<not> set ?ts \<subseteq> fst ` set vocab_dict"
    using assms(3) by blast
  then have "find (\<lambda>t. map_of vocab_dict t = None) ?ts \<noteq> None"
    by (simp only: find_missing_None not_False_eq_True)
  then obtain u where u: "find (\<lambda>t. map_of vocab_dict t = None) ?ts = Some u"
    by (cases "find (\<lambda>t. map_of vocab_dict t = None) ?ts") simp_all
  then have "u \<notin> fst ` set vocab_dict"
    by (rule find_missing_Some [THEN conjunct2])
  moreover have "convert_to_ids garbage word_tokenize raw_sentences vocab_dict pad_to = Inl (KeyError u)"
    by (simp only: convert_to_ids_eq u option.case)
  ultimately show ?thesis by (intro exI [of _ u] conjI)
qed

theorem convert_to_ids_unknown_token_witness:
  "''bad plot'' \<in> set [''good film'', ''bad plot''] \<and>
   ''plot'' \<in> set (blank_tokenize ''bad plot'') \<and>
   ''plot'' \<notin> fst ` set [(''good'', 1::nat), (''film'', 2), (''bad'', 3)] \<and>
   (\<exists>u. u \<notin> fst ` set [(''good'', 1::nat), (''film'', 2), (''bad'', 3)] \<and>
        convert_to_ids sevens blank_tokenize [''good film'', ''bad plot'']
          [(''good'', 1), (''film'', 2), (''bad'', 3)] 3 = Inl (KeyError u))"
proof -
  have h1: "''bad plot'' \<in> set [''good film'', ''bad plot'']" by simp
  have h2: "''plot'' \<in> set (blank_tokenize ''bad plot'')"
    by (simp add: tokenize_bad_plot)
  have h3: "''plot'' \<notin> fst ` set [(''good'', 1::nat), (''film'', 2), (''bad'', 3)]" by simp
  have c: "\<exists>u. u \<notin> fst ` set [(''good'', 1::nat), (''film'', 2), (''bad'', 3)] \<and>
        convert_to_ids sevens blank_tokenize [''good film'', ''bad plot'']
          [(''good'', 1), (''film'', 2), (''bad'', 3)] 3 = Inl (KeyError u)"
    using h1 h2 h3 by (rule convert_to_ids_unknown_token)
  from h1 h2 h3 c show ?thesis by (intro conjI)
qed

text \<open>
  Claim C3, as the code has it. When the vocabulary contains every token of every
  sentence, \<^verbatim>\<open>convert_to_ids\<close> returns an array of shape
  \<open>(num_sentences, pad_to)\<close> whose row \<open>i\<close> is the id sequence of sentence \<open>i\<close>, cut
  to \<open>pad_to\<close> entries if longer and otherwise filled with \<open>0\<close> on the right up to
  \<open>pad_to\<close> entries. The element type of the array is \<^verbatim>\<open>float64\<close>, the default of
  \<^verbatim>\<open>np.empty\<close>, not an integer type; whatever the allocation held is overwritten.
\<close>

theorem convert_to_ids_rows:
  assumes "\<forall>sentence \<in> set raw_sentences. set (word_tokenize sentence) \<subseteq> fst ` set vocab_dict"
  shows "\<exists>x. convert_to_ids garbage word_tokenize raw_sentences vocab_dict pad_to = Inr x \<and>
           nd_dtype x = Float64 \<and>
           nd_shape x = (length raw_sentences, pad_to) \<and>
           length (nd_rows x) = length raw_sentences \<and>
           (\<forall>i < length raw_sentences.
              length (nd_rows x ! i) = pad_to \<and>
              nd_rows x ! i =
                map of_nat
                  (if pad_to < length (word_tokenize (raw_sentences ! i))
                   then take pad_to (ids_of vocab_dict (word_tokenize (raw_sentences ! i)))
                   else ids_of vocab_dict (word_tokenize (raw_sentences ! i)) @
                        replicate (pad_to - length (word_tokenize (raw_sentences ! i))) 0))"
proof -
  let ?ts = "concat (map word_tokenize raw_sentences)"
  let ?x = "\<lparr>nd_dtype = Float64, nd_shape = (length raw_sentences, pad_to),
           nd_rows = map (\<lambda>i. map of_nat (padded_row pad_to (ids_of vocab_dict (word_tokenize (raw_sentences ! i)))))
                       [0 ..< length raw_sentences]\<rparr>"
  have "set ?ts \<subseteq> fst ` set vocab_dict"
    using assms by auto
  then have "find (\<lambda>t. map_of vocab_dict t = None) ?ts = None"
    by (simp only: find_missing_None)
  then have res: "convert_to_ids garbage word_tokenize raw_sentences vocab_dict pad_to = Inr ?x"
    by (simp only: convert_to_ids_eq option.case)
  have row: "\<forall>i < length raw_sentences.
              length (nd_rows ?x ! i) = pad_to \<and>
              nd_rows ?x ! i =
                map of_nat
                  (if pad_to < length (word_tokenize (raw_sentences ! i))
                   then take pad_to (ids_of vocab_dict (word_tokenize (raw_sentences ! i)))
                   else ids_of vocab_dict (word_tokenize (raw_sentences ! i)) @
                        replicate (pad_to - length (word_tokenize (raw_sentences ! i))) 0)"
  proof (intro allI impI)
    fix i assume i: "i < length raw_sentences"
    have len: "length (ids_of vocab_dict (word_tokenize (raw_sentences ! i)))
                 = length (word_tokenize (raw_sentences ! i))"
      by (simp add: ids_of_def)
    have pr: "padded_row pad_to (ids_of vocab_dict (word_tokenize (raw_sentences ! i))) =
                  (if pad_to < length (word_tokenize (raw_sentences ! i))
                   then take pad_to (ids_of vocab_dict (word_tokenize (raw_sentences ! i)))
                   else ids_of vocab_dict (word_tokenize (raw_sentences ! i)) @
                        replicate (pad_to - length (word_tokenize (raw_sentences ! i))) 0)"
      by (simp only: padded_row_def truncates_def len)
    have nth: "nd_rows ?x ! i =
        map of_nat (padded_row pad_to (ids_of vocab_dict (word_tokenize (raw_sentences ! i))))"
      using i by simp
    have "length (nd_rows ?x ! i) = pad_to"
      by (simp only: nth length_map length_padded_row)
    moreover have "nd_rows ?x ! i =
                map of_nat
                  (if pad_to < length (word_tokenize (raw_sentences ! i))
                   then take pad_to (ids_of vocab_dict (word_tokenize (raw_sentences ! i)))
                   else ids_of vocab_dict (word_tokenize (raw_sentences ! i)) @
                        replicate (pad_to - length (word_tokenize (raw_sentences ! i))) 0)"
      by (simp only: nth pr)
    ultimately show "length (nd_rows ?x ! i) = pad_to \<and>
              nd_rows ?x ! i =
                map of_nat
                  (if pad_to < length (word_tokenize (raw_sentences ! i))
                   then take pad_to (ids_of vocab_dict (word_tokenize (raw_sentences ! i)))
                   else ids_of vocab_dict (word_tokenize (raw_sentences ! i)) @
                        replicate (pad_to - length (word_tokenize (raw_sentences ! i))) 0)"
      by (rule conjI)
  qed
  have dt: "nd_dtype ?x = Float64" and shp: "nd_shape ?x = (length raw_sentences, pad_to)"
    and len: "length (nd_rows ?x) = length raw_sentences"
    by simp_all
  from res dt shp len row show ?thesis
    by (intro exI [of _ ?x] conjI)
qed

theorem convert_to_ids_rows_witness:
  "set (blank_tokenize ''good film'') \<subseteq> fst ` set [(''good'', 1::nat), (''film'', 2)] \<and>
   (\<exists>x. convert_to_ids sevens blank_tokenize [''good film''] [(''good'', 1), (''film'', 2)] 3 = Inr x \<and>
        nd_dtype x = Float64 \<and> nd_shape x = (1, 3) \<and> nd_rows x ! 0 = [1, 2, 0])"
proof -
  have h: "\<forall>sentence \<in> set [''good film''].
      set (blank_tokenize sentence) \<subseteq> fst ` set [(''good'', 1::nat), (''film'', 2)]"
    by (simp add: tokenize_good_film)
  have ids: "ids_of [(''good'', 1), (''film'', 2)] [''good'', ''film''] = [1, 2]"
    by (simp add: ids_of_def)
  from convert_to_ids_rows [OF h, of sevens 3]
  obtain x where x: "convert_to_ids sevens blank_tokenize [''good film''] [(''good'', 1), (''film'', 2)] 3 = Inr x"
    and dt: "nd_dtype x = Float64" and shp: "nd_shape x = (length [''good film''], 3)"
    and row: "\<forall>i < length [''good film''].
              length (nd_rows x ! i) = 3 \<and>
              nd_rows x ! i =
                map of_nat
                  (if 3 < length (blank_tokenize ([''good film''] ! i))
                   then take 3 (ids_of [(''good'', 1), (''film'', 2)] (blank_tokenize ([''good film''] ! i)))
                   else ids_of [(''good'', 1), (''film'', 2)] (blank_tokenize ([''good film''] ! i)) @
                        replicate (3 - length (blank_tokenize ([''good film''] ! i))) 0)"
    by (elim exE conjE)
  have "nd_rows x ! 0 =
                map of_nat
                  (if 3 < length (blank_tokenize ([''good film''] ! 0))
                   then take 3 (ids_of [(''good'', 1), (''film'', 2)] (blank_tokenize ([''good film''] ! 0)))
                   else ids_of [(''good'', 1), (''film'', 2)] (blank_tokenize ([''good film''] ! 0)) @
                        replicate (3 - length (blank_tokenize ([''good film''] ! 0))) 0)"
    using row by simp
  then have r: "nd_rows x ! 0 = [1, 2, 0]"
    by (simp add: tokenize_good_film ids_of_def numeral_3_eq_3)
  have s: "nd_shape x = (1, 3)" using shp by simp
  from x dt s r have "\<exists>x. convert_to_ids sevens blank_tokenize [''good film''] [(''good'', 1), (''film'', 2)] 3 = Inr x \<and>
        nd_dtype x = Float64 \<and> nd_shape x = (1, 3) \<and> nd_rows x ! 0 = [1, 2, 0]"
    by (intro exI [of _ x] conjI)
  moreover have "set (blank_tokenize ''good film'') \<subseteq> fst ` set [(''good'', 1::nat), (''film'', 2)]"
    using h by simp
  ultimately show ?thesis by (intro conjI)
qed

text \<open>
  The claim with an integer element type fails on this input: the array returned has
  element type \<^verbatim>\<open>float64\<close>.
\<close>

theorem convert_to_ids_dtype_counterexample:
  "convert_to_ids sevens blank_tokenize [''good film''] [(''good'', 1), (''film'', 2)] 3
     = Inr \<lparr>nd_dtype = Float64, nd_shape = (1, 3), nd_rows = [[1, 2, 0]]\<rparr> \<and>
   convert_to_ids sevens blank_tokenize [''good film''] [(''good'', 1), (''film'', 2)] 3
     \<noteq> Inr \<lparr>nd_dtype = Int64, nd_shape = (1, 3), nd_rows = [[1, 2, 0]]\<rparr>"
  by (simp add: convert_to_ids_eq tokenize_good_film ids_of_def padded_row_def truncates_def)

subsection \<open>Vocabulary and maximum sequence length\<close>

text \<open>
  Claim C6. For an iteration of the token set that yields every distinct token once,
  \<^verbatim>\<open>extract_vocab_dict_and_msl\<close> returns a dictionary whose keys are exactly the
  distinct tokens of the three collections (compared as strings, so case matters), whose
  ids are pairwise different and are exactly \<open>1, \<dots>, N\<close> for \<open>N\<close> distinct tokens,
  together with the largest token count of a sentence; with no sentences at all it
  returns the empty dictionary and \<open>0\<close>.
\<close>

theorem extract_vocab_dict_and_msl_spec:
  assumes "set_iteration set_iter"
    and "extract_vocab_dict_and_msl set_iter word_tokenize sentences_train sentences_dev sentences_val
           = (token_vocab, ms_len)"
  shows "fst ` set token_vocab
           = set (concat (map word_tokenize (sentences_train @ sentences_dev @ sentences_val))) \<and>
         distinct (map fst token_vocab) \<and>
         distinct (map snd token_vocab) \<and>
         snd ` set token_vocab
           = {1 .. card (set (concat (map word_tokenize
                                     (sentences_train @ sentences_dev @ sentences_val))))} \<and>
         (sentences_train @ sentences_dev @ sentences_val \<noteq> [] \<longrightarrow>
            ms_len = Max ((\<lambda>s. length (word_tokenize s))
                           ` set (sentences_train @ sentences_dev @ sentences_val))) \<and>
         (sentences_train @ sentences_dev @ sentences_val = [] \<longrightarrow>
            token_vocab = [] \<and> ms_len = 0)"
proof -
  let ?all = "sentences_train @ sentences_dev @ sentences_val"
  let ?tokens = "concat (map word_tokenize ?all)"
  have tv: "token_vocab = zip (set_iter ?tokens) [1 ..< length (remdups ?tokens) + 1]"
    and ml: "ms_len = Max (insert 0 ((\<lambda>s. length (word_tokenize s)) ` set ?all))"
    using assms(2) unfolding extract_unfold by simp_all
  have keys: "map fst token_vocab = set_iter ?tokens"
    and vals: "map snd token_vocab = [1 ..< card (set ?tokens) + 1]"
    unfolding tv using vocab_keys_values [OF assms(1)] by blast+
  have d: "distinct (set_iter ?tokens)" and s: "set (set_iter ?tokens) = set ?tokens"
    using assms(1) by (simp_all add: set_iteration_def)
  have c1: "fst ` set token_vocab = set ?tokens"
    using keys s by (metis set_map)
  have c2: "distinct (map fst token_vocab)"
    using keys d by simp
  have c3: "distinct (map snd token_vocab)"
    using vals by simp
  have "snd ` set token_vocab = set [1 ..< card (set ?tokens) + 1]"
    using vals by (metis set_map)
  then have c4: "snd ` set token_vocab = {1 .. card (set ?tokens)}"
    by auto
  have c5: "?all \<noteq> [] \<longrightarrow> ms_len = Max ((\<lambda>s. length (word_tokenize s)) ` set ?all)"
  proof
    assume ne: "?all \<noteq> []"
    then have "(\<lambda>s. length (word_tokenize s)) ` set ?all \<noteq> {}" by simp
    then have "Max (insert 0 ((\<lambda>s. length (word_tokenize s)) ` set ?all))
                 = max 0 (Max ((\<lambda>s. length (word_tokenize s)) ` set ?all))"
      by (intro Max_insert) simp_all
    then show "ms_len = Max ((\<lambda>s. length (word_tokenize s)) ` set ?all)"
      using ml by simp
  qed
  have c6: "?all = [] \<longrightarrow> token_vocab = [] \<and> ms_len = 0"
  proof
    assume e: "?all = []"
    then have "?tokens = []" by simp
    then have "set_iter ?tokens = []" using s by simp
    then have "token_vocab = []" using tv by simp
    moreover have "ms_len = 0" using ml e by simp
    ultimately show "token_vocab = [] \<and> ms_len = 0" ..
  qed
  from c1 c2 c3 c4 c5 c6 show ?thesis by (intro conjI)
qed

theorem extract_vocab_dict_and_msl_spec_witness:
  "set_iteration insertion_order \<and>
   extract_vocab_dict_and_msl insertion_order blank_tokenize
     [''good film''] [''bad film''] [''The the'']
   = ([(''good'', 1), (''film'', 2), (''bad'', 3), (''The'', 4), (''the'', 5)], 2) \<and>
   distinct (map snd [(''good'', 1::nat), (''film'', 2), (''bad'', 3), (''The'', 4), (''the'', 5)]) \<and>
   snd ` set [(''good'', 1::nat), (''film'', 2), (''bad'', 3), (''The'', 4), (''the'', 5)]
     = {1 .. card (set (concat (map blank_tokenize
                                  ([''good film''] @ [''bad film''] @ [''The the'']))))} \<and>
   (2::nat) = Max ((\<lambda>s. length (blank_tokenize s))
                    ` set ([''good film''] @ [''bad film''] @ [''The the'']))"
proof -
  note c = extract_vocab_dict_and_msl_spec [OF insertion_order_iteration extract_example]
  have ne: "[''good film''] @ [''bad film''] @ [''The the''] \<noteq> []"
    by simp
  from insertion_order_iteration extract_example
    c [THEN conjunct2, THEN conjunct2, THEN conjunct1]
    c [THEN conjunct2, THEN conjunct2, THEN conjunct2, THEN conjunct1]
    c [THEN conjunct2, THEN conjunct2, THEN conjunct2, THEN conjunct2, THEN conjunct1, THEN mp, OF ne]
  show ?thesis by (intro conjI)
qed

text \<open>
  Claim C7. When \<^verbatim>\<open>seq_len\<close> is derived from the data (the maximum returned by
  \<^verbatim>\<open>extract_vocab_dict_and_msl\<close> for the three splits, with the vocabulary it
  returned), encoding any of the three splits succeeds, and for every sentence the test
  of line 90 is false: the truncating branch is not taken and the row is the complete
  id sequence followed by the padding.
\<close>

theorem auto_seq_len_never_truncates:
  assumes "set_iteration set_iter"
    and "extract_vocab_dict_and_msl set_iter word_tokenize x_train_raw x_dev_raw x_val_raw
           = (token_ids, msl)"
    and "pad_to = resolve_seq_len Get_max_from_data msl"
    and "raw_sentences \<in> {x_train_raw, x_dev_raw, x_val_raw}"
  shows "\<exists>x. convert_to_ids garbage word_tokenize raw_sentences token_ids pad_to = Inr x \<and>
           (\<forall>i < length raw_sentences.
              \<exists>word_ids.
                word_ids_loop token_ids (word_tokenize (raw_sentences ! i)) [] = Inr word_ids \<and>
                length word_ids = length (word_tokenize (raw_sentences ! i)) \<and>
                \<not> truncates pad_to word_ids \<and>
                nd_rows x ! i = map of_nat (word_ids @ replicate (pad_to - length word_ids) 0))"
proof -
  let ?all = "x_train_raw @ x_dev_raw @ x_val_raw"
  let ?tokens = "concat (map word_tokenize ?all)"
  let ?x = "\<lparr>nd_dtype = Float64, nd_shape = (length raw_sentences, pad_to),
           nd_rows = map (\<lambda>i. map of_nat (padded_row pad_to (ids_of token_ids (word_tokenize (raw_sentences ! i)))))
                       [0 ..< length raw_sentences]\<rparr>"
  have sl: "pad_to = msl" using assms(3) by (simp add: resolve_seq_len_def)
  have tv: "token_ids = zip (set_iter ?tokens) [1 ..< length (remdups ?tokens) + 1]"
    and ml: "msl = Max (insert 0 ((\<lambda>s. length (word_tokenize s)) ` set ?all))"
    using assms(2) unfolding extract_unfold by simp_all
  have keys: "map fst token_ids = set_iter ?tokens"
    unfolding tv using vocab_keys_values(1) [OF assms(1)] by blast
  have "set (set_iter ?tokens) = set ?tokens"
    using assms(1) by (simp add: set_iteration_def)
  then have dom: "fst ` set token_ids = set ?tokens"
    using keys by (metis set_map)
  have sub: "set raw_sentences \<subseteq> set ?all"
    using assms(4) by auto
  have cov: "\<And>s. s \<in> set raw_sentences \<Longrightarrow> set (word_tokenize s) \<subseteq> fst ` set token_ids"
    using sub dom by auto
  have bound: "\<And>s. s \<in> set raw_sentences \<Longrightarrow> length (word_tokenize s) \<le> pad_to"
    unfolding sl ml using sub msl_bounds [of _ ?all word_tokenize] by blast
  have "set (concat (map word_tokenize raw_sentences)) \<subseteq> fst ` set token_ids"
    using cov by auto
  then have "find (\<lambda>t. map_of token_ids t = None) (concat (map word_tokenize raw_sentences)) = None"
    by (simp only: find_missing_None)
  then have res: "convert_to_ids garbage word_tokenize raw_sentences token_ids pad_to = Inr ?x"
    by (simp only: convert_to_ids_eq option.case)
  have rows: "\<forall>i < length raw_sentences.
              \<exists>word_ids.
                word_ids_loop token_ids (word_tokenize (raw_sentences ! i)) [] = Inr word_ids \<and>
                length word_ids = length (word_tokenize (raw_sentences ! i)) \<and>
                \<not> truncates pad_to word_ids \<and>
                nd_rows ?x ! i = map of_nat (word_ids @ replicate (pad_to - length word_ids) 0)"
  proof (intro allI impI)
    fix i assume i: "i < length raw_sentences"
    let ?s = "raw_sentences ! i"
    let ?ids = "ids_of token_ids (word_tokenize ?s)"
    have mem: "?s \<in> set raw_sentences" using i by simp
    have "find (\<lambda>t. map_of token_ids t = None) (word_tokenize ?s) = None"
      using cov [OF mem] by (simp only: find_missing_None)
    then have w: "word_ids_loop token_ids (word_tokenize ?s) [] = Inr ?ids"
      by (simp add: word_ids_loop_eq)
    have l: "length ?ids = length (word_tokenize ?s)"
      by (simp add: ids_of_def)
    have nt: "\<not> truncates pad_to ?ids"
      using bound [OF mem] l by (simp add: truncates_def)
    have "nd_rows ?x ! i = map of_nat (padded_row pad_to ?ids)"
      using i by simp
    then have r: "nd_rows ?x ! i = map of_nat (?ids @ replicate (pad_to - length ?ids) 0)"
      using nt by (simp only: padded_row_def if_False)
    from w l nt r show "\<exists>word_ids.
                word_ids_loop token_ids (word_tokenize ?s) [] = Inr word_ids \<and>
                length word_ids = length (word_tokenize ?s) \<and>
                \<not> truncates pad_to word_ids \<and>
                nd_rows ?x ! i = map of_nat (word_ids @ replicate (pad_to - length word_ids) 0)"
      by (intro exI [of _ ?ids] conjI)
  qed
  from res rows show ?thesis
    by (intro exI [of _ ?x] conjI)
qed

theorem auto_seq_len_never_truncates_witness:
  "set_iteration insertion_order \<and>
   extract_vocab_dict_and_msl insertion_order blank_tokenize
     [''good film''] [''bad film''] [''The the'']
   = ([(''good'', 1), (''film'', 2), (''bad'', 3), (''The'', 4), (''the'', 5)], 2) \<and>
   (2::nat) = resolve_seq_len Get_max_from_data 2 \<and>
   [''bad film''] \<in> {[''good film''], [''bad film''], [''The the'']} \<and>
   (\<exists>x. convert_to_ids sevens blank_tokenize [''bad film'']
          [(''good'', 1), (''film'', 2), (''bad'', 3), (''The'', 4), (''the'', 5)] 2 = Inr x \<and>
        (\<forall>i < length [''bad film''].
              \<exists>word_ids.
                word_ids_loop [(''good'', 1), (''film'', 2), (''bad'', 3), (''The'', 4), (''the'', 5)]
                  (blank_tokenize ([''bad film''] ! i)) [] = Inr word_ids \<and>
                length word_ids = length (blank_tokenize ([''bad film''] ! i)) \<and>
                \<not> truncates 2 word_ids \<and>
                nd_rows x ! i = map of_nat (word_ids @ replicate (2 - length word_ids) 0)))"
proof -
  have h3: "(2::nat) = resolve_seq_len Get_max_from_data 2"
    by (simp add: resolve_seq_len_def)
  have h4: "[''bad film''] \<in> {[''good film''], [''bad film''], [''The the'']}"
    by simp
  note c = auto_seq_len_never_truncates [OF insertion_order_iteration extract_example h3 h4, of sevens]
  from insertion_order_iteration extract_example h3 h4 c
  show ?thesis by (intro conjI)
qed

subsection \<open>Mini-batches of an epoch\<close>

text \<open>
  When the training pass of an epoch ends without an exception, the optimizer step has
  been taken for the slices \<open>[b * batch_size, (b + 1) * batch_size)\<close>,
  \<open>b = 0, \<dots>, N div batch_size\<close>, in this order, so for every example once and in index
  order. With packed sequences that happens only if \<open>N mod batch_size\<close> is neither \<open>0\<close>
  nor \<open>1\<close>: otherwise the last slice is empty or has one sentence, and the network call
  raises for it.
\<close>

lemma train_pass_completes_only_if:
  assumes "use_packed_sequence a" and "fst (train_pass lib a m x y) = None"
  shows "1 < fst (shape2 x) mod batch_size a"
proof -
  have pos: "0 < batch_size a"
  proof (rule ccontr)
    assume "\<not> 0 < batch_size a"
    then have "fst (train_pass lib a m x y) = Some ZeroDivisionError"
      by (simp add: train_pass_def Let_def)
    then show False using assms(2) by simp
  qed
  have "fst (shape2 x) mod batch_size a \<noteq> 0"
    using train_pass_divisible [OF assms(1) pos, of x lib m y] assms(2) by auto
  moreover have "fst (shape2 x) mod batch_size a \<noteq> 1"
    using train_pass_remainder_one(1) [OF pos, of x lib m y] assms(2) by auto
  ultimately show ?thesis by simp
qed

text \<open>
  Claim C8 says that in every epoch the training pass takes the slices
  \<open>[b * batch_size, (b + 1) * batch_size)\<close> for \<open>b = 0, \<dots>, N div batch_size\<close>, so that every
  example is processed once, and that \<^verbatim>\<open>acc\<close> divides its input in the same way. The
  loops do run over these batch numbers, but each slice goes to the network. With a
  batch size of \<open>2\<close>: for four examples the third slice is empty and
  \<^verbatim>\<open>pack_padded_sequence\<close> raises after two optimizer steps, in the training pass and
  in \<^verbatim>\<open>acc\<close>; for three examples the second slice has one sentence and the batch
  normalisation raises in training mode, which is the mode \<^verbatim>\<open>acc\<close> is called in at
  lines 209 and 211, so the example of index \<open>2\<close> is never processed.
\<close>

theorem train_pass_stops_early:
  "fst (train_pass quiet_library demo_args demo_network four_sentences [0, 1, 0, 1])
     = Some RuntimeError \<and>
   processed (snd (train_pass quiet_library demo_args demo_network four_sentences [0, 1, 0, 1]))
     = [(0, 2), (2, 4)] \<and>
   acc_pass quiet_library demo_args demo_network four_sentences
     = (Some RuntimeError, [(), ()], [(0, 2), (2, 4)]) \<and>
   fst (train_pass quiet_library demo_args demo_network three_sentences [0, 1, 0])
     = Some ValueError \<and>
   processed (snd (train_pass quiet_library demo_args demo_network three_sentences [0, 1, 0]))
     = [(0, 2)] \<and>
   acc_pass quiet_library demo_args (demo_network\<lparr>training := True\<rparr>) three_sentences
     = (Some ValueError, [()], [(0, 2)])"
  by code_simp

subsection \<open>No-information rate\<close>

text \<open>
  Claim C9. For a non-empty test set the rate reported is \<open>100\<close> times the number of
  examples of a most frequent label, divided by the number of test examples.
\<close>

theorem no_information_rate_majority:
  assumes "y_dev \<noteq> []"
  shows "\<exists>c. c \<in> set y_dev \<and>
           (\<forall>c'. count_list y_dev c' \<le> count_list y_dev c) \<and>
           no_information_rate y_dev =
             Inr (100 * of_nat (count_list y_dev c) / of_nat (length y_dev))"
proof -
  let ?C = "count_list y_dev ` set y_dev"
  have fin: "finite ?C" and ne: "?C \<noteq> {}" using assms by simp_all
  from Max_in [OF fin ne] obtain c where c: "c \<in> set y_dev" and m: "count_list y_dev c = Max ?C"
    by (auto simp: image_iff)
  have le: "\<forall>c'. count_list y_dev c' \<le> count_list y_dev c"
  proof
    fix c'
    show "count_list y_dev c' \<le> count_list y_dev c"
    proof (cases "c' \<in> set y_dev")
      case True
      then have "count_list y_dev c' \<in> ?C" by simp
      then show ?thesis unfolding m using fin by (rule Max_ge [rotated])
    next
      case False
      then have "count_list y_dev c' = 0" by (simp add: count_list_0_iff)
      then show ?thesis by simp
    qed
  qed
  have "no_information_rate y_dev = Inr (100 * of_nat (count_list y_dev c) / of_nat (length y_dev))"
    unfolding m using assms by (rule no_information_rate_eq)
  with c le show ?thesis by (intro exI [of _ c] conjI)
qed

theorem no_information_rate_majority_witness:
  "[1, 0, 1, 1 :: int] \<noteq> [] \<and>
   (\<exists>c. c \<in> set [1, 0, 1, 1 :: int] \<and>
        no_information_rate [1, 0, 1, 1] =
          Inr (100 * of_nat (count_list [1, 0, 1, 1] c) / of_nat (length [1, 0, 1, 1 :: int]))) \<and>
   no_information_rate [1, 0, 1, 1] = Inr 75"
proof -
  have h: "[1, 0, 1, 1 :: int] \<noteq> []" by simp
  from no_information_rate_majority [OF h]
  obtain c where c: "c \<in> set [1, 0, 1, 1 :: int]"
    and r: "no_information_rate [1, 0, 1, 1] =
          Inr (100 * of_nat (count_list [1, 0, 1, 1] c) / of_nat (length [1, 0, 1, 1 :: int]))"
    by (elim exE conjE)
  from c r have "\<exists>c. c \<in> set [1, 0, 1, 1 :: int] \<and>
        no_information_rate [1, 0, 1, 1] =
          Inr (100 * of_nat (count_list [1, 0, 1, 1] c) / of_nat (length [1, 0, 1, 1 :: int]))"
    by (intro exI [of _ c] conjI)
  with h demo_rate show ?thesis by (intro conjI)
qed

subsection \<open>The pretrained lookup table\<close>

text \<open>
  Claim C4. For a vocabulary whose ids are \<open>1, \<dots>, V\<close> and pretrained vectors of \<open>50\<close>
  components, \<^verbatim>\<open>get_glove_table\<close> returns a table of \<open>V + 2\<close> rows of \<open>50\<close> entries;
  row \<open>0\<close> is the zero vector, the row of an id with a pretrained vector is that vector,
  and the row of an id without one is the vector of ones.
\<close>

theorem get_glove_table_rows:
  fixes glove_dict :: "nat \<rightharpoonup> 'a::{zero,one} list"
  assumes "snd ` set vocab_dict = {1 .. length vocab_dict}"
    and "\<forall>i \<in> {1 .. length vocab_dict}. \<forall>v. glove_dict i = Some v \<longrightarrow> length v = 50"
  shows "\<exists>lookup_table.
           get_glove_table garbage vocab_dict glove_dict = Inr lookup_table \<and>
           length lookup_table = length vocab_dict + 2 \<and>
           (\<forall>i < length vocab_dict + 2. length (lookup_table ! i) = 50) \<and>
           lookup_table ! 0 = replicate 50 0 \<and>
           (\<forall>i \<in> {1 .. length vocab_dict}.
              (\<forall>v. glove_dict i = Some v \<longrightarrow> lookup_table ! i = v) \<and>
              (glove_dict i = None \<longrightarrow> lookup_table ! i = replicate 50 1))"
proof -
  from get_glove_table_char [OF assms, of garbage]
  obtain T where res: "get_glove_table garbage vocab_dict glove_dict = Inr T"
    and len: "length T = length vocab_dict + 2"
    and rows: "\<forall>i < length vocab_dict + 2. length (T ! i) = 50"
    and zero: "T ! 0 = replicate 50 0"
    and ids: "\<forall>i \<in> {1 .. length vocab_dict}.
                T ! i = (case glove_dict i of Some v \<Rightarrow> v | None \<Rightarrow> replicate 50 1)"
    by (elim exE conjE)
  have "\<forall>i \<in> {1 .. length vocab_dict}.
              (\<forall>v. glove_dict i = Some v \<longrightarrow> T ! i = v) \<and>
              (glove_dict i = None \<longrightarrow> T ! i = replicate 50 1)"
  proof
    fix i assume "i \<in> {1 .. length vocab_dict}"
    with ids have "T ! i = (case glove_dict i of Some v \<Rightarrow> v | None \<Rightarrow> replicate 50 1)" ..
    then show "(\<forall>v. glove_dict i = Some v \<longrightarrow> T ! i = v) \<and>
              (glove_dict i = None \<longrightarrow> T ! i = replicate 50 1)"
      by (cases "glove_dict i") simp_all
  qed
  with res len rows zero show ?thesis
    by (intro exI [of _ T] conjI)
qed

theorem get_glove_table_rows_witness:
  "snd ` set [(''good'', 1::nat), (''film'', 2)] = {1 .. length [(''good'', 1::nat), (''film'', 2)]} \<and>
   (\<exists>lookup_table.
      get_glove_table sevens [(''good'', 1), (''film'', 2)] demo_glove = Inr lookup_table \<and>
      length lookup_table = 4 \<and>
      lookup_table ! 0 = replicate 50 0 \<and>
      lookup_table ! 1 = replicate 50 (1 / 2) \<and>
      lookup_table ! 2 = replicate 50 1)"
proof -
  from get_glove_table_rows [OF demo_vocab_ids demo_glove_lengths, of sevens]
  obtain T where res: "get_glove_table sevens [(''good'', 1), (''film'', 2)] demo_glove = Inr T"
    and len: "length T = length [(''good'', 1::nat), (''film'', 2)] + 2"
    and zero: "T ! 0 = replicate 50 0"
    and ids: "\<forall>i \<in> {1 .. length [(''good'', 1::nat), (''film'', 2)]}.
              (\<forall>v. demo_glove i = Some v \<longrightarrow> T ! i = v) \<and>
              (demo_glove i = None \<longrightarrow> T ! i = replicate 50 1)"
    by (elim exE conjE)
  have l: "length T = 4" using len by simp
  have "(\<forall>v. demo_glove 1 = Some v \<longrightarrow> T ! 1 = v)" using ids by simp
  then have r1: "T ! 1 = replicate 50 (1 / 2)" by (simp add: demo_glove_def)
  have "demo_glove 2 = None \<longrightarrow> T ! 2 = replicate 50 1" using ids by simp
  then have r2: "T ! 2 = replicate 50 1" by (simp add: demo_glove_def)
  from res l zero r1 r2 have "\<exists>lookup_table.
      get_glove_table sevens [(''good'', 1), (''film'', 2)] demo_glove = Inr lookup_table \<and>
      length lookup_table = 4 \<and>
      lookup_table ! 0 = replicate 50 0 \<and>
      lookup_table ! 1 = replicate 50 (1 / 2) \<and>
      lookup_table ! 2 = replicate 50 1"
    by (intro exI [of _ T] conjI)
  with demo_vocab_ids show ?thesis by (rule conjI)
qed

text \<open>
  Claim C10. Under the same conditions the rows of the table outside \<open>0, \<dots>, V\<close> hold
  what the allocation held, whatever that was: \<^verbatim>\<open>get_glove_table\<close> assigns row \<open>0\<close>
  and the rows of the ids only. The table has as many rows as the embedding layer, so
  row \<open>V + 1\<close> is such a row of both.
\<close>

theorem get_glove_table_last_row:
  fixes glove_dict :: "nat \<rightharpoonup> 'a::{zero,one} list"
  assumes "snd ` set vocab_dict = {1 .. length vocab_dict}"
    and "\<forall>i \<in> {1 .. length vocab_dict}. \<forall>v. glove_dict i = Some v \<longrightarrow> length v = 50"
  shows "\<exists>lookup_table.
           get_glove_table garbage vocab_dict glove_dict = Inr lookup_table \<and>
           length lookup_table = fst (embedding_weight_shape a (length vocab_dict)) \<and>
           length vocab_dict + 1 < length lookup_table \<and>
           (\<forall>i < length lookup_table. i \<notin> {0 .. length vocab_dict} \<longrightarrow>
              lookup_table ! i = map (garbage i) [0 ..< 50]) \<and>
           lookup_table ! (length vocab_dict + 1) = map (garbage (length vocab_dict + 1)) [0 ..< 50]"
proof -
  from get_glove_table_char [OF assms, of garbage]
  obtain T where res: "get_glove_table garbage vocab_dict glove_dict = Inr T"
    and len: "length T = length vocab_dict + 2"
    and out: "\<forall>i < length vocab_dict + 2. i \<notin> {0 .. length vocab_dict} \<longrightarrow>
                T ! i = map (garbage i) [0 ..< 50]"
    by (elim exE conjE)
  have c2: "length T = fst (embedding_weight_shape a (length vocab_dict))"
    using len by (simp add: embedding_weight_shape_def)
  have c3: "length vocab_dict + 1 < length T" using len by simp
  have c4: "\<forall>i < length T. i \<notin> {0 .. length vocab_dict} \<longrightarrow> T ! i = map (garbage i) [0 ..< 50]"
    using out unfolding len .
  have c5: "T ! (length vocab_dict + 1) = map (garbage (length vocab_dict + 1)) [0 ..< 50]"
    using c4 c3 by simp
  from res c2 c3 c4 c5 show ?thesis
    by (intro exI [of _ T] conjI)
qed

theorem get_glove_table_last_row_witness:
  "snd ` set [(''good'', 1::nat), (''film'', 2)] = {1 .. length [(''good'', 1::nat), (''film'', 2)]} \<and>
   (\<exists>lookup_table.
      get_glove_table sevens [(''good'', 1), (''film'', 2)] demo_glove = Inr lookup_table \<and>
      length lookup_table = fst (embedding_weight_shape demo_args 2) \<and>
      lookup_table ! 3 = map (sevens 3) [0 ..< 50])"
proof -
  from get_glove_table_last_row [OF demo_vocab_ids demo_glove_lengths, of sevens demo_args]
  obtain T where res: "get_glove_table sevens [(''good'', 1), (''film'', 2)] demo_glove = Inr T"
    and len: "length T = fst (embedding_weight_shape demo_args (length [(''good'', 1::nat), (''film'', 2)]))"
    and last: "T ! (length [(''good'', 1::nat), (''film'', 2)] + 1)
                 = map (sevens (length [(''good'', 1::nat), (''film'', 2)] + 1)) [0 ..< 50]"
    by (elim exE conjE)
  have l: "length T = fst (embedding_weight_shape demo_args 2)"
    using len by (simp add: embedding_weight_shape_def)
  have "length [(''good'', 1::nat), (''film'', 2)] + 1 = 3" by simp
  with last have r: "T ! 3 = map (sevens 3) [0 ..< 50]" by (simp only:)
  from res l r have "\<exists>lookup_table.
      get_glove_table sevens [(''good'', 1), (''film'', 2)] demo_glove = Inr lookup_table \<and>
      length lookup_table = fst (embedding_weight_shape demo_args 2) \<and>
      lookup_table ! 3 = map (sevens 3) [0 ..< 50]"
    by (intro exI [of _ T] conjI)
  with demo_vocab_ids show ?thesis by (rule conjI)
qed

subsection \<open>The best checkpoint\<close>

text \<open>
  Claim C5. With checkpoint saving enabled, the file is written at an epoch exactly when
  the epoch's validation accuracy is strictly greater than \<^verbatim>\<open>acc_dev_best\<close> as the
  earlier epochs left it, and then \<^verbatim>\<open>acc_dev_best\<close> becomes that accuracy and the
  file holds that epoch's parameters. After any number of epochs \<^verbatim>\<open>acc_dev_best\<close>
  is the maximum of \<open>0\<close> and the accuracies seen; if the file has been written in
  the run, it holds the parameters of the last epoch that wrote it and that epoch's
  accuracy is the maximum of all accuracies seen so far; it has not been written only if
  no accuracy was above \<open>0\<close>, and then it is what it was before the run. The best
  value never decreases from one epoch to a later one.
\<close>

theorem best_checkpoint:
  fixes outcomes :: "('m \<times> 'a::{zero,linorder}) list"
  shows
    "(\<forall>e < length outcomes.
        e \<in> set (saved_at (training_loop True outcomes file)) \<longleftrightarrow>
        acc_dev_best (training_loop True (take e outcomes) file) < snd (outcomes ! e)) \<and>
     (\<forall>e < length outcomes.
        acc_dev_best (training_loop True (take e outcomes) file) < snd (outcomes ! e) \<longrightarrow>
        acc_dev_best (training_loop True (take (Suc e) outcomes) file) = snd (outcomes ! e) \<and>
        checkpoint (training_loop True (take (Suc e) outcomes) file) = Some (fst (outcomes ! e))) \<and>
     acc_dev_best (training_loop True outcomes file) = Max (insert 0 (snd ` set outcomes)) \<and>
     (saved_at (training_loop True outcomes file) \<noteq> [] \<longrightarrow>
        last (saved_at (training_loop True outcomes file)) < length outcomes \<and>
        checkpoint (training_loop True outcomes file)
          = Some (fst (outcomes ! last (saved_at (training_loop True outcomes file)))) \<and>
        snd (outcomes ! last (saved_at (training_loop True outcomes file)))
          = Max (snd ` set outcomes)) \<and>
     (saved_at (training_loop True outcomes file) = [] \<longrightarrow>
        checkpoint (training_loop True outcomes file) = file \<and>
        (\<forall>oc \<in> set outcomes. snd oc \<le> 0)) \<and>
     (\<forall>k \<le> length outcomes.
        acc_dev_best (training_loop True (take k outcomes) file)
          \<le> acc_dev_best (training_loop True outcomes file))"
proof -
  let ?st = "training_loop True outcomes file"
  let ?A = "snd ` set outcomes"
  have c1: "\<forall>e < length outcomes.
        e \<in> set (saved_at ?st) \<longleftrightarrow>
        acc_dev_best (training_loop True (take e outcomes) file) < snd (outcomes ! e)"
    by (simp add: saved_at_filter [of outcomes "file"])
  have c2: "\<forall>e < length outcomes.
        acc_dev_best (training_loop True (take e outcomes) file) < snd (outcomes ! e) \<longrightarrow>
        acc_dev_best (training_loop True (take (Suc e) outcomes) file) = snd (outcomes ! e) \<and>
        checkpoint (training_loop True (take (Suc e) outcomes) file) = Some (fst (outcomes ! e))"
  proof (intro allI impI)
    fix e
    assume e: "e < length outcomes"
      and gt: "acc_dev_best (training_loop True (take e outcomes) file) < snd (outcomes ! e)"
    have "training_loop True (take (Suc e) outcomes) file
            = checkpoint_step True (length (take e outcomes)) (outcomes ! e)
                (training_loop True (take e outcomes) file)"
      using e by (simp only: take_Suc_conv_app_nth training_loop_snoc)
    then show "acc_dev_best (training_loop True (take (Suc e) outcomes) file) = snd (outcomes ! e) \<and>
        checkpoint (training_loop True (take (Suc e) outcomes) file) = Some (fst (outcomes ! e))"
      using gt by (simp add: checkpoint_step_def Let_def)
  qed
  have c3: "acc_dev_best ?st = Max (insert 0 ?A)"
    by (rule best_Max)
  have c4: "saved_at ?st \<noteq> [] \<longrightarrow>
        last (saved_at ?st) < length outcomes \<and>
        checkpoint ?st = Some (fst (outcomes ! last (saved_at ?st))) \<and>
        snd (outcomes ! last (saved_at ?st)) = Max ?A"
  proof
    assume ne: "saved_at ?st \<noteq> []"
    with last_saved [of outcomes "file"]
    have l: "last (saved_at ?st) < length outcomes"
      and c: "checkpoint ?st = Some (fst (outcomes ! last (saved_at ?st)))"
      and b: "acc_dev_best ?st = snd (outcomes ! last (saved_at ?st))"
      by simp_all
    let ?m = "snd (outcomes ! last (saved_at ?st))"
    have mem: "?m \<in> ?A" using l by simp
    then have "?m \<le> Max ?A" by simp
    moreover have "Max ?A \<le> Max (insert 0 ?A)"
      using mem by (intro Max_mono) auto
    moreover have "Max (insert 0 ?A) = ?m" using b c3 by simp
    ultimately have "?m = Max ?A" by simp
    with l c show "last (saved_at ?st) < length outcomes \<and>
        checkpoint ?st = Some (fst (outcomes ! last (saved_at ?st))) \<and>
        snd (outcomes ! last (saved_at ?st)) = Max ?A"
      by (intro conjI)
  qed
  have c5: "saved_at ?st = [] \<longrightarrow> checkpoint ?st = file \<and> (\<forall>oc \<in> set outcomes. snd oc \<le> 0)"
  proof
    assume e: "saved_at ?st = []"
    with last_saved [of outcomes "file"]
    have f: "checkpoint ?st = file" and z: "acc_dev_best ?st = 0" by simp_all
    have "\<forall>oc \<in> set outcomes. snd oc \<le> 0"
    proof
      fix oc assume "oc \<in> set outcomes"
      then have "snd oc \<in> insert 0 ?A" by simp
      then have "snd oc \<le> Max (insert 0 ?A)" by (intro Max_ge) simp_all
      then show "snd oc \<le> 0" using z c3 by simp
    qed
    with f show "checkpoint ?st = file \<and> (\<forall>oc \<in> set outcomes. snd oc \<le> 0)" ..
  qed
  have c6: "\<forall>k \<le> length outcomes.
        acc_dev_best (training_loop True (take k outcomes) file) \<le> acc_dev_best ?st"
  proof (intro allI impI)
    fix k
    have "insert 0 (snd ` set (take k outcomes)) \<subseteq> insert 0 ?A"
      using set_take_subset [of k outcomes] by auto
    then have "Max (insert 0 (snd ` set (take k outcomes))) \<le> Max (insert 0 ?A)"
      by (intro Max_mono) simp_all
    then show "acc_dev_best (training_loop True (take k outcomes) file) \<le> acc_dev_best ?st"
      by (simp only: best_Max)
  qed
  from c1 c2 c3 c4 c5 c6 show ?thesis by (intro conjI)
qed

theorem best_checkpoint_witness:
  "training_loop True demo_outcomes None =
     \<lparr>acc_dev_best = 70, checkpoint = Some ''epoch1'', saved_at = [0, 1]\<rparr> \<and>
   saved_at (training_loop True demo_outcomes None) \<noteq> [] \<and>
   checkpoint (training_loop True demo_outcomes None)
     = Some (fst (demo_outcomes ! last (saved_at (training_loop True demo_outcomes None)))) \<and>
   snd (demo_outcomes ! last (saved_at (training_loop True demo_outcomes None)))
     = Max (snd ` set demo_outcomes)"
proof -
  have ne: "saved_at (training_loop True demo_outcomes None) \<noteq> []"
    by (simp add: demo_run)
  note c = best_checkpoint [of demo_outcomes None, THEN conjunct2, THEN conjunct2, THEN conjunct2,
    THEN conjunct1, THEN mp, OF ne]
  from demo_run ne c [THEN conjunct2, THEN conjunct1] c [THEN conjunct2, THEN conjunct2]
  show ?thesis by (intro conjI)
qed

subsection \<open>Sequence lengths handed to the packing routine\<close>

text \<open>
  The list computed by \<^verbatim>\<open>forward\<close> is the specified one whenever the weight has \<open>50\<close>
  columns and each of its rows is either zero in every entry or zero in none.
\<close>

lemma forward_lenghts_agree:
  fixes weight :: "'a::zero tensor2"
  assumes "snd (shape2 weight) = 50"
    and "\<forall>i < fst (shape2 weight).
           (\<forall>k < 50. el2 weight i k = 0) \<or> (\<forall>k < 50. el2 weight i k \<noteq> 0)"
  shows "forward_lenghts a weight x0 = specified_lengths a weight x0"
proof (cases "embedding weight x0")
  case (Inl e)
  then show ?thesis by (simp add: forward_lenghts_def specified_lengths_def)
next
  case (Inr emb)
  note E = embedding_Inr [OF Inr]
  let ?x = "permute_1_0_2 emb"
  have eq: "\<And>b. b \<in> set [0 ..< fst (snd (shape3 ?x))] \<Longrightarrow>
      (let n_zeros = of_nat (count_zero (select_sentence ?x b)) / 50
       in of_nat (seq_len a) - n_zeros)
      = (of_nat (seq_len a) - of_nat (count_zero_rows (select_sentence ?x b)) :: rat)"
  proof -
    fix b assume "b \<in> set [0 ..< fst (snd (shape3 ?x))]"
    then have b: "b < fst (shape2 x0)"
      by (simp add: permute_1_0_2_def E(1))
    let ?t = "select_sentence ?x b"
    have s: "shape2 ?t = (snd (shape2 x0), 50)"
      by (simp add: select_sentence_def permute_1_0_2_def E(1) assms(1))
    have el: "\<And>i k. el2 ?t i k = el2 weight (el2 x0 b i) k"
      by (simp add: select_sentence_def permute_1_0_2_def E(2))
    have "\<forall>i < fst (shape2 ?t). (\<forall>k < 50. el2 ?t i k = 0) \<or> (\<forall>k < 50. el2 ?t i k \<noteq> 0)"
    proof (intro allI impI)
      fix i assume "i < fst (shape2 ?t)"
      then have "i < snd (shape2 x0)" by (simp add: s)
      then have "el2 x0 b i < fst (shape2 weight)" using E(3) b by simp
      then have "(\<forall>k < 50. el2 weight (el2 x0 b i) k = 0) \<or> (\<forall>k < 50. el2 weight (el2 x0 b i) k \<noteq> 0)"
        using assms(2) by simp
      then show "(\<forall>k < 50. el2 ?t i k = 0) \<or> (\<forall>k < 50. el2 ?t i k \<noteq> 0)"
        by (simp only: el)
    qed
    then have "count_zero ?t = 50 * count_zero_rows ?t"
      using s by (intro count_zero_rows_times) simp_all
    then show "(let n_zeros = of_nat (count_zero ?t) / 50 in of_nat (seq_len a) - n_zeros)
      = (of_nat (seq_len a) - of_nat (count_zero_rows ?t) :: rat)"
      by (simp add: Let_def)
  qed
  have "map (\<lambda>b. let n_zeros = of_nat (count_zero (select_sentence ?x b)) / 50
                  in of_nat (seq_len a) - n_zeros) [0 ..< fst (snd (shape3 ?x))]
      = map (\<lambda>b. (of_nat (seq_len a) - of_nat (count_zero_rows (select_sentence ?x b)) :: rat))
            [0 ..< fst (snd (shape3 ?x))]"
    by (rule map_cong [OF refl]) (rule eq)
  then show ?thesis
    using Inr by (simp add: forward_lenghts_def specified_lengths_def Let_def)
qed

text \<open>
  An ordinary batch: one sentence of a single token of id \<open>2\<close>, whose embedding row has
  no zero entry, followed by one padding id. Both lists give the length \<open>1\<close>.
\<close>

lemma forward_lenghts_padded_sentence:
  "forward_lenghts demo_args half_zero_weight one_word_batch = Inr (Some [1]) \<and>
   specified_lengths demo_args half_zero_weight one_word_batch = Inr (Some [1])"
  by code_simp

text \<open>
  Claim C1 says that for every batch the length handed to the packing routine is
  \<^verbatim>\<open>seq_len\<close> minus the number of all-zero embedding rows of the sentence. The code
  divides the number of zero entries by \<open>50\<close> instead. For a sentence of two tokens of
  id \<open>1\<close>, whose embedding row has \<open>25\<close> zero entries, with \<^verbatim>\<open>seq_len = 2\<close>, the code
  computes the length \<open>1\<close>, while no row of the sentence is all zero and the specified
  length is \<open>2\<close>.
\<close>

theorem forward_lenghts_zero_entries:
  "forward_lenghts demo_args half_zero_weight two_word_batch = Inr (Some [1]) \<and>
   specified_lengths demo_args half_zero_weight two_word_batch = Inr (Some [2])"
  by code_simp

end
